theory Spec2Isabelle
  imports Main "HOL-Library.Sublist"
begin

section \<open>JavaScript strings\<close>

text \<open>
  A JavaScript string is a sequence of UTF-16 code units; a code unit is modelled as an
  integer (what \<open>charCodeAt\<close> returns). \<open>str\<close> turns an ASCII literal into such a
  sequence. The literals of the source that are not ASCII are written out as code units.
\<close>

type_synonym jsstring = "int list"

definition str :: "string \<Rightarrow> jsstring" where
  "str s = map of_char s"

definition NL :: int where
  "NL = 10"

definition CR :: int where
  "CR = 13"

definition SP :: int where
  "SP = 32"

definition HASH :: int where
  "HASH = 35"

text \<open>U+672A U+5206 U+7C7B, the default section label of convertMdToMd.\<close>

definition UNCLASSIFIED :: jsstring where
  "UNCLASSIFIED = [26410, 20998, 31867]"

text \<open>U+672A U+547D U+540D U+4E3B U+9898, the placeholder title of a topic without title.\<close>

definition UNNAMED_TOPIC :: jsstring where
  "UNNAMED_TOPIC = [26410, 21629, 21517, 20027, 39064]"

text \<open>U+601D U+7EF4 U+5BFC U+56FE, the fallback title of the written root topic.\<close>

definition MINDMAP :: jsstring where
  "MINDMAP = [24605, 32500, 23548, 22270]"

text \<open>
  The title of the root that parseMarkdownToStructure starts with: \<open>'Markdown '\<close> and
  the four code units above.
\<close>

definition DEFAULT_ROOT_TITLE :: jsstring where
  "DEFAULT_ROOT_TITLE = str ''Markdown '' @ MINDMAP"

text \<open>
  The line terminators of ECMAScript (LF, CR, LS, PS): the characters that \<open>.\<close> does
  not match in a regular expression without the \<open>s\<close> flag.
\<close>

definition isLineTerminator :: "int \<Rightarrow> bool" where
  "isLineTerminator c = (c = 10 \<or> c = 13 \<or> c = 8232 \<or> c = 8233)"

text \<open>
  White space and line terminators of ECMAScript: what \<open>\s\<close> matches and what
  \<open>trim\<close>, \<open>trimEnd\<close> remove (TAB, LF, VT, FF, CR, SP, NBSP, U+1680, U+2000 to U+200A,
  LS, PS, U+202F, U+205F, U+3000, U+FEFF).
\<close>

definition isSpace :: "int \<Rightarrow> bool" where
  "isSpace c = (c = 9 \<or> c = 10 \<or> c = 11 \<or> c = 12 \<or> c = 13 \<or> c = 32 \<or> c = 160 \<or> c = 5760
     \<or> (8192 \<le> c \<and> c \<le> 8202) \<or> c = 8232 \<or> c = 8233 \<or> c = 8239 \<or> c = 8287
     \<or> c = 12288 \<or> c = 65279)"

definition trimStart :: "jsstring \<Rightarrow> jsstring" where
  "trimStart s = dropWhile isSpace s"

definition trimEnd :: "jsstring \<Rightarrow> jsstring" where
  "trimEnd s = rev (dropWhile isSpace (rev s))"

definition trim :: "jsstring \<Rightarrow> jsstring" where
  "trim s = trimStart (trimEnd s)"

text \<open>\<open>s.split('\n')\<close>: never the empty list; \<open>''.split('\n')\<close> is \<open>['']\<close>.\<close>

fun splitNL :: "jsstring \<Rightarrow> jsstring list" where
  "splitNL [] = [[]]"
| "splitNL (c # cs) =
     (if c = NL then [] # splitNL cs
      else (case splitNL cs of [] \<Rightarrow> [[c]] | l # ls \<Rightarrow> (c # l) # ls))"

text \<open>\<open>xs.join('\n')\<close>: the empty string for the empty array.\<close>

fun joinNL :: "jsstring list \<Rightarrow> jsstring" where
  "joinNL [] = []"
| "joinNL [x] = x"
| "joinNL (x # y # ys) = x @ NL # joinNL (y # ys)"

text \<open>\<open>s.replace(/\r$/, '')\<close>: without the \<open>m\<close> flag \<open>$\<close> is the end of the string.\<close>

definition stripFinalCR :: "jsstring \<Rightarrow> jsstring" where
  "stripFinalCR s = (if s \<noteq> [] \<and> last s = CR then butlast s else s)"

section \<open>The two line patterns\<close>

text \<open>
  The tail \<open>\s+(.+)$\<close> that both patterns share, on the rest of the line: the captured
  group of \<open>(.+)\<close>, when there is a match. \<open>\s+\<close> is greedy: it takes the whole run of
  white space when something free of line terminators follows; when nothing follows it
  gives its last character back to \<open>(.+)\<close>. A line terminator in what \<open>(.+)\<close> would have
  to cover leaves no match.
\<close>

definition matchSpaceText :: "jsstring \<Rightarrow> jsstring option" where
  "matchSpaceText r =
     (let ws = takeWhile isSpace r; body = dropWhile isSpace r in
      if ws = [] then None
      else if body \<noteq> [] then (if list_ex isLineTerminator body then None else Some body)
      else if 2 \<le> length ws \<and> \<not> isLineTerminator (last ws) then Some [last ws]
      else None)"

text \<open>
  \<open>s.match(/^(#{1,6})\s+(.+)$/)\<close>: the length of group 1 and group 2. The character
  after the run of \<open>#\<close> must be white space, so group 1 is the whole run, of 1 to 6.
\<close>

definition matchHeading :: "jsstring \<Rightarrow> (nat \<times> jsstring) option" where
  "matchHeading s =
     (let k = length (takeWhile (\<lambda>c. c = HASH) s) in
      if k < 1 \<or> 6 < k then None
      else (case matchSpaceText (dropWhile (\<lambda>c. c = HASH) s) of
              None \<Rightarrow> None
            | Some g \<Rightarrow> Some (k, g)))"

text \<open>
  \<open>s.match(/^(\s*)([-*+])\s+(.+)$/)\<close>: the length of group 1 and group 3. The marker is
  no white space, so group 1 is the whole leading run of white space.
\<close>

definition matchBullet :: "jsstring \<Rightarrow> (nat \<times> jsstring) option" where
  "matchBullet s =
     (case dropWhile isSpace s of
        [] \<Rightarrow> None
      | c # r \<Rightarrow>
          if c = 45 \<or> c = 42 \<or> c = 43 then
            (case matchSpaceText r of
               None \<Rightarrow> None
             | Some g \<Rightarrow> Some (length (takeWhile isSpace s), g))
          else None)"

section \<open>The tree of the Markdown parser\<close>

text \<open>
  A node object \<open>{ title, children, note }\<close>; \<open>note\<close> is \<open>None\<close> while the property is
  undefined.
\<close>

datatype node = Node (title: jsstring) (node_note: "jsstring option") (children: "node list")

text \<open>
  The objects of pathStack are nodes of the tree under construction, shared with it. A
  reference to such a node is modelled as its path from the root (the child indices):
  children are only ever appended, so a path keeps denoting the same node.
\<close>

type_synonym path = "nat list"

fun get_at :: "path \<Rightarrow> node \<Rightarrow> node option" where
  "get_at [] n = Some n"
| "get_at (i # p) n =
     (if i < length (children n) then get_at p (children n ! i) else None)"

fun upd_at :: "path \<Rightarrow> (node \<Rightarrow> node) \<Rightarrow> node \<Rightarrow> node" where
  "upd_at [] f n = f n"
| "upd_at (i # p) f n =
     (if i < length (children n)
      then Node (title n) (node_note n) ((children n)[i := upd_at p f (children n ! i)])
      else n)"

definition numChildren :: "path \<Rightarrow> node \<Rightarrow> nat" where
  "numChildren p t = (case get_at p t of None \<Rightarrow> 0 | Some n \<Rightarrow> length (children n))"

definition pushChild :: "node \<Rightarrow> node \<Rightarrow> node" where
  "pushChild c n = Node (title n) (node_note n) (children n @ [c])"

record pstate =
  struct :: node
  pathStack :: "path list"
  firstH1Found :: bool

definition initState :: pstate where
  "initState = \<lparr> struct = Node DEFAULT_ROOT_TITLE None [], pathStack = [[]],
                 firstH1Found = False \<rparr>"

text \<open>\<open>while (pathStack.length > adjustedLevel) pathStack.pop();\<close>\<close>

function popTo :: "nat \<Rightarrow> path list \<Rightarrow> path list" where
  "popTo lvl st = (if length st > lvl then popTo lvl (butlast st) else st)"
  by pat_completeness auto
termination
  by (relation "measure (\<lambda>(lvl, st). length st)") auto

declare popTo.simps [simp del]

text \<open>
  The four statements that the heading branch and the bullet branch both end with:
  \<^verbatim>\<open>
  while (pathStack.length > adjustedLevel) pathStack.pop();
  if (pathStack.length === 0) pathStack.push(structure);
  (pathStack[pathStack.length - 1].children).push(node);
  pathStack.push(node);
  \<close>
\<close>

definition insertNode :: "nat \<Rightarrow> node \<Rightarrow> pstate \<Rightarrow> pstate" where
  "insertNode adjustedLevel nd st =
     (let popped = popTo adjustedLevel (pathStack st);
          stack = (if popped = [] then [[]] else popped);
          top = last stack
      in st \<lparr> struct := upd_at top (pushChild nd) (struct st),
              pathStack := stack @ [top @ [numChildren top (struct st)]] \<rparr>)"

text \<open>\<open>current.note = current.note ? (current.note + '\n' + line) : line\<close>\<close>

definition appendNote :: "jsstring \<Rightarrow> node \<Rightarrow> node" where
  "appendNote line n =
     Node (title n)
          (Some (case node_note n of
                   None \<Rightarrow> line
                 | Some old \<Rightarrow> if old = [] then line else old @ NL # line))
          (children n)"

definition setTitle :: "jsstring \<Rightarrow> node \<Rightarrow> node" where
  "setTitle t n = Node t (node_note n) (children n)"

text \<open>The plain-text branch at the end of the loop body.\<close>

definition plainText :: "jsstring \<Rightarrow> pstate \<Rightarrow> pstate" where
  "plainText line st =
     (if length (pathStack st) > 1 then
        (let top = last (pathStack st) in
         if numChildren top (struct st) = 0
         then st \<lparr> struct := upd_at top (appendNote line) (struct st) \<rparr>
         else st \<lparr> struct := upd_at top (pushChild (Node line None [])) (struct st) \<rparr>)
      else st)"

text \<open>
  The heading branch, for a match with \<open>level\<close> hashes; \<open>ttl\<close> is \<open>h[2].trim()\<close>.
\<close>

definition headingLine :: "nat \<Rightarrow> jsstring \<Rightarrow> pstate \<Rightarrow> pstate" where
  "headingLine level ttl st =
     (if level = 1 \<and> \<not> firstH1Found st then
        st \<lparr> struct := setTitle ttl (struct st),
             pathStack := take 1 (pathStack st),
             firstH1Found := True \<rparr>
      else
        (let adjusted = (if level = 1 then 1 else level - 1);
             adjustedLevel = (if adjusted < 1 then 1 else adjusted)
         in insertNode adjustedLevel (Node ttl None []) st))"

text \<open>
  The bullet branch, for a match with group 1 of length \<open>indent\<close>; \<open>ttl\<close> is
  \<open>lm[3].trim()\<close>.
\<close>

definition bulletLine :: "nat \<Rightarrow> jsstring \<Rightarrow> pstate \<Rightarrow> pstate" where
  "bulletLine indent ttl st = insertNode (indent div 2 + 1) (Node ttl None []) st"

text \<open>
  Which branch of the loop body a raw line takes, in the order of the source: the blank
  test, the heading pattern on \<open>line.trim()\<close>, then the bullet pattern on \<open>line\<close>, then
  plain text.
\<close>

datatype lineKind = Blank | Heading nat jsstring | Bullet nat jsstring | Plain jsstring

definition classifyLine :: "jsstring \<Rightarrow> lineKind" where
  "classifyLine raw =
     (let line = trimEnd (stripFinalCR raw) in
      if trim line = [] then Blank
      else (case matchHeading (trim line) of
              Some (level, g) \<Rightarrow> Heading level (trim g)
            | None \<Rightarrow>
                (case matchBullet line of
                   Some (indent, g) \<Rightarrow> Bullet indent (trim g)
                 | None \<Rightarrow> Plain line)))"

text \<open>One turn of \<open>for (let raw of lines)\<close>.\<close>

definition processLine :: "jsstring \<Rightarrow> pstate \<Rightarrow> pstate" where
  "processLine raw st =
     (case classifyLine raw of
        Blank \<Rightarrow> st
      | Heading level ttl \<Rightarrow> headingLine level ttl st
      | Bullet indent ttl \<Rightarrow> bulletLine indent ttl st
      | Plain line \<Rightarrow> plainText line st)"

fun processLines :: "jsstring list \<Rightarrow> pstate \<Rightarrow> pstate" where
  "processLines [] st = st"
| "processLines (raw # raws) st = processLines raws (processLine raw st)"

definition parseMarkdownToStructure :: "jsstring \<Rightarrow> node" where
  "parseMarkdownToStructure content = struct (processLines (splitNL content) initState)"


subsection \<open>Notions used to state the properties of the parser\<close>

text \<open>The state of the loop when it reaches line \<open>i\<close> (counted from 0) of the content.\<close>

definition stateBefore :: "jsstring \<Rightarrow> nat \<Rightarrow> pstate" where
  "stateBefore content i = processLines (take i (splitNL content)) initState"

definition isH1 :: "jsstring \<Rightarrow> bool" where
  "isH1 raw = (case classifyLine raw of Heading l t \<Rightarrow> l = 1 | _ \<Rightarrow> False)"

definition isPlainOrBlank :: "jsstring \<Rightarrow> bool" where
  "isPlainOrBlank raw = (case classifyLine raw of Blank \<Rightarrow> True | Plain l \<Rightarrow> True | _ \<Rightarrow> False)"

text \<open>
  A node update that keeps the title and only appends children; pushChild and appendNote
  are such updates.
\<close>

definition keeps :: "(node \<Rightarrow> node) \<Rightarrow> bool" where
  "keeps f = (\<forall>n. title (f n) = title n \<and> (\<exists>cs. children (f n) = children n @ cs))"

text \<open>
  The invariant of the loop: the stack is never empty, its entry \<open>i\<close> is a node at
  depth \<open>i\<close> of the tree, and every entry denotes a node of the tree.
\<close>

definition stackOk :: "pstate \<Rightarrow> bool" where
  "stackOk st = (pathStack st \<noteq> [] \<and>
     (\<forall>i<length (pathStack st). length (pathStack st ! i) = i \<and>
        get_at (pathStack st ! i) (struct st) \<noteq> None))"

text \<open>
  What the stack discipline gives the plain-text branch: while the stack holds more than
  the root, the node on top of it is the one pushed last, and it has no children.
\<close>

definition topIsLeaf :: "pstate \<Rightarrow> bool" where
  "topIsLeaf st =
     (length (pathStack st) \<le> 1 \<or> numChildren (last (pathStack st)) (struct st) = 0)"

text \<open>The scenario of the specification: \<open>"# Root\n## Sec\n### Sub\nbody text"\<close>.\<close>

definition sampleDoc :: jsstring where
  "sampleDoc = str ''# Root\<newline>## Sec\<newline>### Sub\<newline>body text''"

section \<open>The heading restructurer (convertMdToMd)\<close>

text \<open>An entry \<open>[lineIndex, level, title]\<close> of the array \<open>headers\<close>.\<close>

type_synonym header = "nat \<times> nat \<times> jsstring"

text \<open>
  \<open>lines.forEach((line, i) => { const m = line.trim().match(/^(#{1,6})\s+(.+)$/);
  if (m) headers.push([i, m[1].length, m[2].trim()]); })\<close>, from index \<open>i\<close> on.
\<close>

fun collectHeaders :: "jsstring list \<Rightarrow> nat \<Rightarrow> header list" where
  "collectHeaders [] i = []"
| "collectHeaders (line # rest) i =
     (case matchHeading (trim line) of
        Some (level, g) \<Rightarrow> (i, level, trim g) # collectHeaders rest (Suc i)
      | None \<Rightarrow> collectHeaders rest (Suc i))"

text \<open>
  \<open>findParentH2(h3IndexInHeaders)\<close>: the loop \<open>for (let i = h3IndexInHeaders - 1; i >= 0; i--)\<close>.
  It is called with the index of an entry of \<open>headers\<close>, so every \<open>headers[i]\<close> read is
  in range.
\<close>

fun findParentH2 :: "header list \<Rightarrow> nat \<Rightarrow> jsstring" where
  "findParentH2 headers 0 = UNCLASSIFIED"
| "findParentH2 headers (Suc i) =
     (if fst (snd (headers ! i)) = 2 then snd (snd (headers ! i))
      else findParentH2 headers i)"

text \<open>
  The inner loop \<open>for (let j = 0; j < headers.length; j++)\<close> for line \<open>i\<close>, from \<open>j\<close> on:
  the values of \<open>isH2\<close>, \<open>isH3\<close> and \<open>parentH2\<close> after it.
\<close>

function scanHeaders :: "header list \<Rightarrow> nat \<Rightarrow> nat \<Rightarrow> bool \<times> bool \<times> jsstring" where
  "scanHeaders headers i j =
     (if j < length headers then
        (if fst (headers ! j) = i then
           (fst (snd (headers ! j)) = 2,
            fst (snd (headers ! j)) = 3,
            if fst (snd (headers ! j)) = 3 then findParentH2 headers j else [])
         else scanHeaders headers i (Suc j))
      else (False, False, []))"
  by pat_completeness auto
termination
  by (relation "measure (\<lambda>(headers, i, j). length headers - j)") auto

declare scanHeaders.simps [simp del]

text \<open>The outer loop \<open>for (let i = 0; i < lines.length; i++)\<close>, from \<open>i\<close> on.\<close>

function buildResult :: "jsstring list \<Rightarrow> header list \<Rightarrow> nat \<Rightarrow> jsstring list \<Rightarrow> jsstring list" where
  "buildResult lines headers i result =
     (if i < length lines then
        (case scanHeaders headers i 0 of
           (isH2, isH3, parentH2) \<Rightarrow>
             if isH2 then buildResult lines headers (Suc i) result
             else if isH3 then
               buildResult lines headers (Suc i) (result @ [str ''## '' @ parentH2, lines ! i])
             else buildResult lines headers (Suc i) (result @ [lines ! i]))
      else result)"
  by pat_completeness auto
termination
  by (relation "measure (\<lambda>(lines, headers, i, result). length lines - i)") auto

declare buildResult.simps [simp del]

definition convertMdToMd :: "jsstring \<Rightarrow> jsstring" where
  "convertMdToMd content =
     (let lines = splitNL content;
          headers = collectHeaders lines 0
      in joinNL (buildResult lines headers 0 []))"

subsection \<open>The restructuring as the specification words it\<close>

text \<open>The heading that a line is, if any: its level and its title.\<close>

definition lineHeading :: "jsstring \<Rightarrow> (nat \<times> jsstring) option" where
  "lineHeading line = map_option (\<lambda>(level, g). (level, trim g)) (matchHeading (trim line))"

text \<open>
  The section label for a heading that comes after the lines \<open>pre\<close>: the title of the
  nearest preceding level-2 heading in the list of headings, the default label if there
  is none.
\<close>

definition sectionLabel :: "jsstring list \<Rightarrow> jsstring" where
  "sectionLabel pre =
     (case filter (\<lambda>h. fst h = 2) (rev (List.map_filter lineHeading pre)) of
        [] \<Rightarrow> UNCLASSIFIED
      | h # _ \<Rightarrow> snd h)"

text \<open>
  What line \<open>i\<close> contributes to the result: nothing for a level-2 heading; the synthesized
  level-2 line with the section label and then the line itself for a level-3 heading;
  the line itself otherwise.
\<close>

definition restructureLine :: "jsstring list \<Rightarrow> nat \<Rightarrow> jsstring list" where
  "restructureLine lines i =
     (case lineHeading (lines ! i) of
        None \<Rightarrow> [lines ! i]
      | Some (level, t) \<Rightarrow>
          if level = 2 then []
          else if level = 3 then [str ''## '' @ sectionLabel (take i lines), lines ! i]
          else [lines ! i])"

definition restructureSpec :: "jsstring list \<Rightarrow> jsstring list" where
  "restructureSpec lines = concat (map (restructureLine lines) [0..<length lines])"

text \<open>
  The same as one pass over the lines that carries the label of the current section.
\<close>

fun relabel :: "jsstring \<Rightarrow> jsstring list \<Rightarrow> jsstring list" where
  "relabel lbl [] = []"
| "relabel lbl (l # ls) =
     (case lineHeading l of
        None \<Rightarrow> l # relabel lbl ls
      | Some (level, t) \<Rightarrow>
          if level = 2 then relabel t ls
          else if level = 3 then (str ''## '' @ lbl) # l # relabel lbl ls
          else l # relabel lbl ls)"

text \<open>
  A label that reads back as itself from a synthesized line: not empty, no white space
  at either end, no line terminator inside.
\<close>

definition goodLabel :: "jsstring \<Rightarrow> bool" where
  "goodLabel t = (t \<noteq> [] \<and> \<not> isSpace (hd t) \<and> \<not> isSpace (last t) \<and> \<not> list_ex isLineTerminator t)"

text \<open>The label that a list of headers leaves in force: the title of its last level-2 entry.\<close>

definition labelOf :: "header list \<Rightarrow> jsstring" where
  "labelOf A = (case filter (\<lambda>h. fst h = 2) (rev (map snd A)) of
                  [] \<Rightarrow> UNCLASSIFIED | h # _ \<Rightarrow> snd h)"


section \<open>Topics, sheets and the Markdown renderer\<close>

text \<open>
  A topic object of the package, with the properties that the reader and the writer
  use: \<open>id\<close>, \<open>class\<close>, \<open>title\<close>, \<open>notes.plain.content\<close>, the flat \<open>note\<close>,
  \<open>children.attached\<close> and \<open>children.detached\<close>. A property is \<open>None\<close> when it is
  absent. The model covers packages of this shape: titles and notes that are strings,
  children that are arrays of topics; property values of other JSON types are outside it.
\<close>

datatype topic = Topic
  (topic_id: "jsstring option")
  (topic_class: "jsstring option")
  (topic_title: "jsstring option")
  (notes_plain_content: "jsstring option")
  (topic_note: "jsstring option")
  (children_attached: "topic list option")
  (children_detached: "topic list option")

text \<open>A sheet object: \<open>id\<close>, \<open>class\<close>, \<open>title\<close>, \<open>rootTopic\<close> and the legacy \<open>topic\<close>.\<close>

datatype sheet = Sheet
  (sheet_id: "jsstring option")
  (sheet_class: "jsstring option")
  (sheet_title: "jsstring option")
  (rootTopic: "topic option")
  (sheet_topic: "topic option")

text \<open>
  \<open>const ch = topic.children || {}; const list = ch.attached || ch.detached || [];\<close>
  An array is truthy even when it is empty.
\<close>

definition getChildren :: "topic \<Rightarrow> topic list" where
  "getChildren topic =
     (case children_attached topic of
        Some list \<Rightarrow> list
      | None \<Rightarrow> (case children_detached topic of Some list \<Rightarrow> list | None \<Rightarrow> []))"

definition getNote :: "topic \<Rightarrow> jsstring" where
  "getNote topic =
     (case notes_plain_content topic of
        Some content \<Rightarrow> content
      | None \<Rightarrow> (case topic_note topic of Some n \<Rightarrow> n | None \<Rightarrow> []))"

text \<open>\<open>topic.title || '\<dots>'\<close> with the placeholder title: the empty string is falsy.\<close>

definition titleOrUnnamed :: "topic \<Rightarrow> jsstring" where
  "titleOrUnnamed topic =
     (case topic_title topic of
        None \<Rightarrow> UNNAMED_TOPIC
      | Some t \<Rightarrow> if t = [] then UNNAMED_TOPIC else t)"

text \<open>\<open>s.repeat(n)\<close>\<close>

definition repeat :: "jsstring \<Rightarrow> nat \<Rightarrow> jsstring" where
  "repeat s n = concat (replicate n s)"

lemma size_getChildren [termination_simp]:
  "child \<in> set (getChildren topic) \<Longrightarrow> size child < size topic"
  by (cases topic)
     (auto simp: getChildren_def less_Suc_eq_le trans_le_add1 trans_le_add2
           dest!: size_list_estimation'[where f = size and y = "size child", OF _ order_refl]
           split: option.splits)

text \<open>
  The line that toHeaderMd pushes for the topic itself:
  \<open>if (level <= 6) out.push('#'.repeat(level) + ' ' + title);
  else out.push('  '.repeat(level - 7) + '- ' + title);\<close>
\<close>

definition headerLine :: "nat \<Rightarrow> jsstring \<Rightarrow> jsstring" where
  "headerLine level ttl =
     (if level \<le> 6 then repeat (str ''#'') level @ str '' '' @ ttl
      else repeat (str ''  '') (level - 7) @ str ''- '' @ ttl)"

text \<open>
  The lines that toHeaderMd pushes for the note:
  \<open>if (note) { out.push(''); for (const line of note.split('\n')) out.push('> ' + line);
  out.push(''); }\<close>
\<close>

definition headerNoteLines :: "jsstring \<Rightarrow> jsstring list" where
  "headerNoteLines n =
     (if n \<noteq> [] then [[]] @ map (\<lambda>line. str ''> '' @ line) (splitNL n) @ [[]] else [])"

text \<open>\<open>toHeaderMd(topic, level, out)\<close>: the array \<open>out\<close> after the call.\<close>

fun toHeaderMd :: "topic \<Rightarrow> nat \<Rightarrow> jsstring list \<Rightarrow> jsstring list" where
  "toHeaderMd topic level out =
     (let out1 = out @ [headerLine level (titleOrUnnamed topic)];
          out2 = out1 @ headerNoteLines (trim (getNote topic));
          out3 = fold (\<lambda>child acc. toHeaderMd child (level + 1) acc) (getChildren topic) out2
      in if level \<le> 3 then out3 @ [[]] else out3)"

declare toHeaderMd.simps [simp del]

text \<open>\<open>toListMd(topic, level, out)\<close>\<close>

fun toListMd :: "topic \<Rightarrow> nat \<Rightarrow> jsstring list \<Rightarrow> jsstring list" where
  "toListMd topic level out =
     (let ttl = titleOrUnnamed topic;
          out1 = (if level = 0 then out @ [str ''# '' @ ttl, []]
                  else out @ [repeat (str ''  '') (level - 1) @ str ''- '' @ ttl]);
          n = trim (getNote topic);
          out2 = (if n \<noteq> []
                  then out1 @ map (\<lambda>line. repeat (str ''  '') level @ str ''> '' @ line) (splitNL n)
                  else out1)
      in fold (\<lambda>child acc. toListMd child (level + 1) acc) (getChildren topic) out2)"

declare toListMd.simps [simp del]

text \<open>
  The loop over the sheets and the final join:
  \<^verbatim>\<open>
  for (const sheet of sheets) {
    const topic = sheet.rootTopic || sheet.topic;
    if (!topic) continue;
    const out = (format === 'list') ? toListMd(topic, 0, []) : toHeaderMd(topic, 1, []);
    outputs.push(out.join('\n'));
  }
  return outputs.join('\n');
  \<close>
\<close>

definition sheetTopic :: "sheet \<Rightarrow> topic option" where
  "sheetTopic sh = (case rootTopic sh of Some t \<Rightarrow> Some t | None \<Rightarrow> sheet_topic sh)"

definition sheetOutput :: "jsstring \<Rightarrow> topic \<Rightarrow> jsstring" where
  "sheetOutput format topic =
     joinNL (if format = str ''list'' then toListMd topic 0 [] else toHeaderMd topic 1 [])"

definition sheetOutputs :: "jsstring \<Rightarrow> sheet list \<Rightarrow> jsstring list" where
  "sheetOutputs format sheets =
     concat (map (\<lambda>sh. case sheetTopic sh of None \<Rightarrow> [] | Some topic \<Rightarrow> [sheetOutput format topic])
                 sheets)"

definition renderSheets :: "jsstring \<Rightarrow> sheet list \<Rightarrow> jsstring" where
  "renderSheets format sheets = joinNL (sheetOutputs format sheets)"

section \<open>The reader of the legacy XML content\<close>

subsection \<open>The regular expressions of the reader\<close>

text \<open>
  A character \<open>c\<close> against the pattern character \<open>p\<close> under the \<open>i\<close> flag. The pattern
  characters of the source are ASCII; without the \<open>u\<close> flag only the other case of an
  ASCII letter is matched besides the character itself.
\<close>

definition matchesCI :: "int \<Rightarrow> int \<Rightarrow> bool" where
  "matchesCI p c = (c = p \<or> (97 \<le> p \<and> p \<le> 122 \<and> c = p - 32) \<or> (65 \<le> p \<and> p \<le> 90 \<and> c = p + 32))"

text \<open>The literal \<open>pat\<close> matches at the start of the string.\<close>

fun startsWithCI :: "jsstring \<Rightarrow> jsstring \<Rightarrow> bool" where
  "startsWithCI [] s = True"
| "startsWithCI (p # ps) [] = False"
| "startsWithCI (p # ps) (c # cs) = (matchesCI p c \<and> startsWithCI ps cs)"

text \<open>
  The lazy \<open>[\s\S]*?\<close> followed by the literal \<open>pat\<close>: the text before the first
  occurrence of \<open>pat\<close>, and the text after this occurrence.
\<close>

fun findCI :: "jsstring \<Rightarrow> jsstring \<Rightarrow> (jsstring \<times> jsstring) option" where
  "findCI pat [] = (if pat = [] then Some ([], []) else None)"
| "findCI pat (c # cs) =
     (if startsWithCI pat (c # cs) then Some ([], drop (length pat) (c # cs))
      else (case findCI pat cs of None \<Rightarrow> None | Some (b, a) \<Rightarrow> Some (c # b, a)))"

text \<open>
  \<open>/<tag[^>]*>([\s\S]*?)<\/tag>/i\<close> at the start of the string: the matched text and
  the rest of the string after it. \<open>[^>]*\<close> runs to the first \<open>>\<close>, the lazy group
  to the first closing tag after it.
\<close>

definition matchElementAt :: "jsstring \<Rightarrow> jsstring \<Rightarrow> (jsstring \<times> jsstring) option" where
  "matchElementAt tag s =
     (if startsWithCI (60 # tag) s then
        (case dropWhile (\<lambda>c. c \<noteq> 62) (drop (Suc (length tag)) s) of
           [] \<Rightarrow> None
         | gt # r \<Rightarrow>
             (case findCI (str ''</'' @ tag @ str ''>'') r of
                None \<Rightarrow> None
              | Some (inner, rest) \<Rightarrow> Some (take (length s - length rest) s, rest)))
      else None)"

text \<open>\<open>s.match(/<tag[^>]*>([\s\S]*?)<\/tag>/i)\<close>: the text \<open>m[0]\<close> of the first match.\<close>

fun firstElement :: "jsstring \<Rightarrow> jsstring \<Rightarrow> jsstring option" where
  "firstElement tag [] = None"
| "firstElement tag (c # cs) =
     (case matchElementAt tag (c # cs) of
        Some (m, rest) \<Rightarrow> Some m
      | None \<Rightarrow> firstElement tag cs)"

text \<open>
  \<open>s.match(/<tag[^>]*>([\s\S]*?)<\/tag>/gi)\<close>: the texts of all matches, from left to
  right, each search starting where the match before ended (\<open>skip\<close> counts the
  characters of the last match still to pass). The empty list stands for \<open>null\<close>.
\<close>

fun allElements :: "jsstring \<Rightarrow> nat \<Rightarrow> jsstring \<Rightarrow> jsstring list" where
  "allElements tag skip [] = []"
| "allElements tag skip (c # cs) =
     (if skip > 0 then allElements tag (skip - 1) cs
      else (case matchElementAt tag (c # cs) of
              Some (m, rest) \<Rightarrow> m # allElements tag (length m - 1) cs
            | None \<Rightarrow> allElements tag 0 cs))"

text \<open>
  \<open>/<title>([^<]*)<\/title>/i\<close>: group 1 of the first match. \<open>[^<]*\<close> runs to the
  next \<open><\<close>, where the closing tag must stand.
\<close>

definition matchTitleAt :: "jsstring \<Rightarrow> jsstring option" where
  "matchTitleAt s =
     (if startsWithCI (str ''<title>'') s then
        (let r = drop 7 s in
         if startsWithCI (str ''</title>'') (dropWhile (\<lambda>c. c \<noteq> 60) r)
         then Some (takeWhile (\<lambda>c. c \<noteq> 60) r)
         else None)
      else None)"

fun firstTitle :: "jsstring \<Rightarrow> jsstring option" where
  "firstTitle [] = None"
| "firstTitle (c # cs) =
     (case matchTitleAt (c # cs) of Some g \<Rightarrow> Some g | None \<Rightarrow> firstTitle cs)"

text \<open>
  \<open>/<notes>([\s\S]*?)<\/notes>/i\<close> and \<open>/<plain>([\s\S]*?)<\/plain>/i\<close>: group 1 of the
  first match of an opening literal, a lazy group and a closing literal.
\<close>

definition matchBetweenAt :: "jsstring \<Rightarrow> jsstring \<Rightarrow> jsstring \<Rightarrow> jsstring option" where
  "matchBetweenAt opn cls s =
     (if startsWithCI opn s then map_option fst (findCI cls (drop (length opn) s)) else None)"

fun firstBetween :: "jsstring \<Rightarrow> jsstring \<Rightarrow> jsstring \<Rightarrow> jsstring option" where
  "firstBetween opn cls [] = None"
| "firstBetween opn cls (c # cs) =
     (case matchBetweenAt opn cls (c # cs) of
        Some g \<Rightarrow> Some g
      | None \<Rightarrow> firstBetween opn cls cs)"

text \<open>
  \<open>s.replace(/<[^>]*>/g, '')\<close>: a \<open><\<close> that has a \<open>>\<close> somewhere after it opens a
  match, which ends at the first \<open>>\<close>; \<open>inTag\<close> tells that a match is open.
\<close>

fun stripTagsFrom :: "bool \<Rightarrow> jsstring \<Rightarrow> jsstring" where
  "stripTagsFrom inTag [] = []"
| "stripTagsFrom inTag (c # cs) =
     (if inTag then (if c = 62 then stripTagsFrom False cs else stripTagsFrom True cs)
      else if c = 60 \<and> 62 \<in> set cs then stripTagsFrom True cs
      else c # stripTagsFrom False cs)"

definition stripTags :: "jsstring \<Rightarrow> jsstring" where
  "stripTags s = stripTagsFrom False s"

text \<open>The text contains a tag: a \<open><\<close> with a \<open>>\<close> somewhere after it.\<close>

fun hasTag :: "jsstring \<Rightarrow> bool" where
  "hasTag [] = False"
| "hasTag (c # cs) = ((c = 60 \<and> 62 \<in> set cs) \<or> hasTag cs)"

subsection \<open>Topics of the XML content\<close>

text \<open>
  parseXMLTopic calls itself on the \<open><topic>\<close> matches inside the \<open><topics>\<close> matches
  of its argument. Such a match ends with \<open></topic>\<close>, the \<open><topics>\<close> match around it
  with \<open></topics>\<close>, so it is shorter than the argument: the recursion ends. The facts
  about the patterns that show this come first.
\<close>

text \<open>The text ends with the closing tag of \<open>tag\<close>, in any case of its letters.\<close>

definition endsWithTag :: "jsstring \<Rightarrow> jsstring \<Rightarrow> bool" where
  "endsWithTag tag m = (\<exists>pre e. m = pre @ e \<and> length e = length tag + 3 \<and>
      startsWithCI (str ''</'' @ tag @ str ''>'') e)"

lemma startsWithCI_take:
  "startsWithCI pat s \<Longrightarrow> length pat \<le> length s \<and> startsWithCI pat (take (length pat) s)"
  by (induction pat s rule: startsWithCI.induct) auto

lemma startsWithCI_nth:
  "startsWithCI pat e \<Longrightarrow> i < length pat \<Longrightarrow> matchesCI (pat ! i) (e ! i)"
  by (induction pat e arbitrary: i rule: startsWithCI.induct) (auto simp: nth_Cons split: nat.splits)

lemma findCI_Some:
  "findCI pat s = Some (b, a) \<Longrightarrow>
   \<exists>e. s = b @ e @ a \<and> length e = length pat \<and> startsWithCI pat e"
proof (induction s arbitrary: b a)
  case Nil
  then show ?case by (auto split: if_splits)
next
  case (Cons c cs)
  show ?case
  proof (cases "startsWithCI pat (c # cs)")
    case True
    with Cons.prems have b: "b = []" and a: "a = drop (length pat) (c # cs)" by auto
    from startsWithCI_take[OF True] have
      "length (take (length pat) (c # cs)) = length pat" "startsWithCI pat (take (length pat) (c # cs))"
      by auto
    moreover have "c # cs = b @ take (length pat) (c # cs) @ a" by (simp add: a b)
    ultimately show ?thesis by blast
  next
    case False
    with Cons.prems obtain b' where f: "findCI pat cs = Some (b', a)" and b: "b = c # b'"
      by (auto split: option.splits)
    from Cons.IH[OF f] obtain e where "cs = b' @ e @ a" "length e = length pat" "startsWithCI pat e"
      by blast
    then show ?thesis using b by auto
  qed
qed

lemma matchElementAt_Some:
  assumes "matchElementAt tag s = Some (m, rest)"
  shows "s = m @ rest \<and> endsWithTag tag m"
proof -
  define r0 where "r0 = drop (Suc (length tag)) s"
  from assms obtain gt r inner where
    d: "dropWhile (\<lambda>c. c \<noteq> 62) r0 = gt # r" and
    f: "findCI (str ''</'' @ tag @ str ''>'') r = Some (inner, rest)" and
    m: "m = take (length s - length rest) s"
    by (auto simp: matchElementAt_def r0_def split: if_splits list.splits option.splits)
  from findCI_Some[OF f] obtain e where
    e: "r = inner @ e @ rest" "length e = length (str ''</'' @ tag @ str ''>'')"
       "startsWithCI (str ''</'' @ tag @ str ''>'') e" by blast
  have "s = take (Suc (length tag)) s @ r0" by (simp add: r0_def)
  also have "r0 = takeWhile (\<lambda>c. c \<noteq> 62) r0 @ gt # r" using d by (metis takeWhile_dropWhile_id)
  finally have s: "s = (take (Suc (length tag)) s @ takeWhile (\<lambda>c. c \<noteq> 62) r0 @ gt # inner @ e) @ rest"
    using e(1) by simp
  define front where "front = take (Suc (length tag)) s @ takeWhile (\<lambda>c. c \<noteq> 62) r0 @ gt # inner"
  have s': "s = (front @ e) @ rest" using s by (simp add: front_def)
  have "length s - length rest = length (front @ e)" by (subst s') simp
  then have "m = front @ e" unfolding m by (subst s') simp
  moreover have "length e = length tag + 3" using e(2) by (simp add: str_def)
  ultimately show ?thesis using s' e(3) unfolding endsWithTag_def by auto
qed

lemma allElements_member:
  "m \<in> set (allElements tag skip s) \<Longrightarrow> (\<exists>a b. s = a @ m @ b) \<and> endsWithTag tag m"
proof (induction s arbitrary: skip)
  case Nil
  then show ?case by simp
next
  case (Cons c cs)
  have rec: "(\<exists>a b. c # cs = a @ m @ b) \<and> endsWithTag tag m" if "m \<in> set (allElements tag k cs)" for k
  proof -
    from Cons.IH[OF that] obtain a b where "cs = a @ m @ b" and t: "endsWithTag tag m" by blast
    then have "c # cs = (c # a) @ m @ b" by simp
    with t show ?thesis by blast
  qed
  show ?case
  proof (cases "skip > 0")
    case True
    with Cons.prems show ?thesis using rec by auto
  next
    case False
    show ?thesis
    proof (cases "matchElementAt tag (c # cs)")
      case None
      with False Cons.prems show ?thesis using rec by auto
    next
      case (Some a)
      obtain m' rest where a: "a = (m', rest)" by (cases a)
      from Cons.prems False Some a
      consider "m = m'" | "m \<in> set (allElements tag (length m' - 1) cs)" by auto
      then show ?thesis
      proof cases
        case 1
        from matchElementAt_Some[OF Some[unfolded a]] 1
        have "c # cs = [] @ m @ rest" "endsWithTag tag m" by auto
        then show ?thesis by blast
      next
        case 2
        then show ?thesis by (rule rec)
      qed
    qed
  qed
qed

lemma endsWithTag_penultimate:
  assumes "endsWithTag tag m" "tag \<noteq> []"
  shows "2 \<le> length m \<and> matchesCI (last tag) (m ! (length m - 2))"
proof -
  from assms(1) obtain pre e where m: "m = pre @ e" and l: "length e = length tag + 3"
    and s: "startsWithCI (str ''</'' @ tag @ str ''>'') e"
    unfolding endsWithTag_def by blast
  have i: "length tag + 1 < length (str ''</'' @ tag @ str ''>'')" by (simp add: str_def)
  have "(str ''</'' @ tag @ str ''>'') ! (length tag + 1) = last tag"
    using assms(2) by (simp add: str_def nth_append last_conv_nth)
  with startsWithCI_nth[OF s i] have "matchesCI (last tag) (e ! (length tag + 1))" by simp
  moreover have "m ! (length m - 2) = e ! (length tag + 1)"
    using l by (simp add: m nth_append)
  ultimately show ?thesis using l m by simp
qed

lemma subtopic_shorter:
  assumes "x \<in> set (allElements (str ''topics'') 0 topicXML)"
    and "sub \<in> set (allElements (str ''topic'') 0 x)"
  shows "length sub < length topicXML"
proof -
  from allElements_member[OF assms(1)] obtain a b where
    x: "topicXML = a @ x @ b" and xt: "endsWithTag (str ''topics'') x" by blast
  from allElements_member[OF assms(2)] obtain a' b' where
    s: "x = a' @ sub @ b'" and st: "endsWithTag (str ''topic'') sub" by blast
  have le: "length sub \<le> length topicXML" by (simp add: x s)
  have "length sub \<noteq> length topicXML"
  proof
    assume "length sub = length topicXML"
    then have "sub = x" using x s by simp
    with endsWithTag_penultimate[OF xt] endsWithTag_penultimate[OF st]
    have "matchesCI 115 (x ! (length x - 2))" "matchesCI 99 (x ! (length x - 2))"
      by (simp_all add: str_def)
    then show False by (auto simp: matchesCI_def)
  qed
  with le show ?thesis by simp
qed

text \<open>
  \<open>parseXMLTopic(topicXML)\<close>. No statement of its \<open>try\<close> block throws on a string, so
  the \<open>null\<close> of the \<open>catch\<close> is never returned and the tests \<open>if (childTopic)\<close>,
  \<open>if (rootTopic)\<close> of the callers always succeed.
\<close>

function parseXMLTopic :: "jsstring \<Rightarrow> topic" where
  "parseXMLTopic topicXML =
     (let ttl = (case firstTitle topicXML of Some g \<Rightarrow> g | None \<Rightarrow> UNNAMED_TOPIC);
          n = (case firstBetween (str ''<notes>'') (str ''</notes>'') topicXML of
                 None \<Rightarrow> []
               | Some notes \<Rightarrow>
                   (case firstBetween (str ''<plain>'') (str ''</plain>'') notes of
                      None \<Rightarrow> []
                    | Some plain \<Rightarrow> trim (stripTags plain)));
          attached = concat (map (\<lambda>childMatch.
                                    map parseXMLTopic (allElements (str ''topic'') 0 childMatch))
                                 (allElements (str ''topics'') 0 topicXML))
      in Topic None None (Some ttl) (if n \<noteq> [] then Some n else None) None
               (if attached \<noteq> [] then Some attached else None) None)"
  by pat_completeness auto
termination
  by (relation "measure length") (auto simp: subtopic_shorter)

declare parseXMLTopic.simps [simp del]

text \<open>\<open>parseXMindXML(xmlStr)\<close>: the sheets, or \<open>None\<close> for \<open>null\<close>.\<close>

definition parseXMindXML :: "jsstring \<Rightarrow> sheet list option" where
  "parseXMindXML xmlStr =
     (let sheetMatches = allElements (str ''sheet'') 0 xmlStr in
      if sheetMatches = [] then None
      else (let sheets = concat (map (\<lambda>sheetMatch.
                                        case firstElement (str ''topic'') sheetMatch of
                                          None \<Rightarrow> []
                                        | Some topicXML \<Rightarrow>
                                            [Sheet None None None (Some (parseXMLTopic topicXML)) None])
                                     sheetMatches)
            in if sheets \<noteq> [] then Some sheets else None))"

section \<open>The package reader (xmindZipToMarkdown)\<close>

text \<open>
  The archive that \<open>zip.loadAsync(buffer)\<close> gives: the text of each file entry, by its
  exact name. \<open>z.file(name)\<close> is the entry of that name or \<open>null\<close>.
\<close>

type_synonym archive = "jsstring \<rightharpoonup> jsstring"

text \<open>
  The value that \<open>JSON.parse\<close> returns for a content text: an array of sheets, a single
  sheet object, or one of the two other objects that the writer stores in a package.
\<close>

datatype jsonData =
    DataArray "sheet list"
  | DataObject sheet
  | DataMetadata jsstring
  | DataManifest "jsstring list"

text \<open>
  \<open>const sheets = Array.isArray(data) ? data : [data];\<close> An object that is no sheet is
  taken for one; it has neither \<open>rootTopic\<close> nor \<open>topic\<close>.
\<close>

definition sheetsOf :: "jsonData \<Rightarrow> sheet list" where
  "sheetsOf data =
     (case data of
        DataArray sheets \<Rightarrow> sheets
      | DataObject sh \<Rightarrow> [sh]
      | _ \<Rightarrow> [Sheet None None None None None])"

text \<open>
  The errors thrown: \<open>'content.json \<dots>'\<close> (parsing failed), the unsupported format
  (neither content.json nor content.xml) and \<open>'content.xml \<dots>'\<close> (parsing failed).
\<close>

datatype error = ContentJsonParseError | UnsupportedFormat | ContentXmlParseError

text \<open>\<open>z.file(a) || z.file(b)\<close>\<close>

definition fileOr :: "archive \<Rightarrow> jsstring \<Rightarrow> jsstring \<Rightarrow> jsstring option" where
  "fileOr z a b = (case z a of Some f \<Rightarrow> Some f | None \<Rightarrow> z b)"

text \<open>
  The first half of xmindZipToMarkdown, up to \<open>sheets\<close>. \<open>JSON_parse\<close> stands for
  safeJSONParse followed by the test \<open>if (!data)\<close>: \<open>None\<close> when \<open>JSON.parse\<close> throws or
  returns a falsy value.
\<close>

definition readSheets :: "(jsstring \<Rightarrow> jsonData option) \<Rightarrow> archive \<Rightarrow> error + sheet list" where
  "readSheets JSON_parse z =
     (case fileOr z (str ''content.json'') (str ''Content.json'') of
        Some jsonStr \<Rightarrow>
          (case JSON_parse jsonStr of
             None \<Rightarrow> Inl ContentJsonParseError
           | Some data \<Rightarrow> Inr (sheetsOf data))
      | None \<Rightarrow>
          (case fileOr z (str ''content.xml'') (str ''Content.xml'') of
             None \<Rightarrow> Inl UnsupportedFormat
           | Some xmlStr \<Rightarrow>
               (case parseXMindXML xmlStr of
                  None \<Rightarrow> Inl ContentXmlParseError
                | Some data \<Rightarrow> Inr data)))"

definition xmindZipToMarkdown ::
  "(jsstring \<Rightarrow> jsonData option) \<Rightarrow> archive \<Rightarrow> jsstring \<Rightarrow> error + jsstring" where
  "xmindZipToMarkdown JSON_parse z format =
     (case readSheets JSON_parse z of
        Inl e \<Rightarrow> Inl e
      | Inr sheets \<Rightarrow> Inr (renderSheets format sheets))"

section \<open>The package writer (buildXMindZipFromStructure)\<close>

text \<open>
  \<open>buildTopic(node)\<close>. The identifiers come from \<open>uid()\<close>, which is random: \<open>uid k\<close>
  is the result of call number \<open>k\<close>, and the number of calls made so far is passed along.
  The property \<open>notes\<close> is set when \<open>node.note\<close> is truthy, \<open>children\<close> when the array
  of built children is not empty.
\<close>

fun buildTopic :: "(nat \<Rightarrow> jsstring) \<Rightarrow> node \<Rightarrow> nat \<Rightarrow> topic \<times> nat"
  and buildTopics :: "(nat \<Rightarrow> jsstring) \<Rightarrow> node list \<Rightarrow> nat \<Rightarrow> topic list \<times> nat" where
  "buildTopic uid (Node ttl nt cs) k =
     (case buildTopics uid cs (Suc k) of
        (built, k') \<Rightarrow>
          (Topic (Some (uid k)) (Some (str ''topic'')) (Some ttl)
                 (case nt of None \<Rightarrow> None | Some n \<Rightarrow> if n \<noteq> [] then Some n else None)
                 None
                 (if built \<noteq> [] then Some built else None)
                 None,
           k'))"
| "buildTopics uid [] k = ([], k)"
| "buildTopics uid (c # cs) k =
     (case buildTopic uid c k of
        (t, k1) \<Rightarrow> (case buildTopics uid cs k1 of (ts, k2) \<Rightarrow> (t # ts, k2)))"

text \<open>\<open>structure.title || '\<dots>'\<close> with the fallback title of the root.\<close>

definition rootTitle :: "node \<Rightarrow> jsstring" where
  "rootTitle structure = (if title structure = [] then MINDMAP else title structure)"

text \<open>
  The array \<open>content\<close> with its one sheet: the root topic is built from the title and
  the children of the structure only.
\<close>

definition buildContent :: "(nat \<Rightarrow> jsstring) \<Rightarrow> node \<Rightarrow> sheet list \<times> nat" where
  "buildContent uid structure =
     (case buildTopic uid (Node (rootTitle structure) None (children structure)) 0 of
        (root, k) \<Rightarrow>
          ([Sheet (Some (uid k)) (Some (str ''sheet'')) (Some (rootTitle structure)) (Some root) None],
           Suc k))"

text \<open>
  The three entries of the archive. \<open>JSON_stringify\<close> stands for \<open>JSON.stringify\<close>; the
  archive that \<open>generateAsync\<close> packs is modelled by its entries.
\<close>

definition buildXMindZipFromStructure ::
  "(nat \<Rightarrow> jsstring) \<Rightarrow> (jsonData \<Rightarrow> jsstring) \<Rightarrow> node \<Rightarrow> archive" where
  "buildXMindZipFromStructure uid JSON_stringify structure =
     (case buildContent uid structure of
        (content, k) \<Rightarrow>
          [str ''content.json'' \<mapsto> JSON_stringify (DataArray content),
           str ''metadata.json'' \<mapsto> JSON_stringify (DataMetadata (str ''local-'' @ uid k)),
           str ''manifest.json'' \<mapsto>
             JSON_stringify (DataManifest [str ''content.json'', str ''metadata.json''])])"

section \<open>Notions used to state the properties of the renderer, the reader and the writer\<close>

text \<open>The number of \<open>#\<close> characters that a line starts with.\<close>

definition leadingHashes :: "jsstring \<Rightarrow> nat" where
  "leadingHashes line = length (takeWhile (\<lambda>c. c = HASH) line)"

text \<open>The topics of a tree in the order of the rendering, each with its level.\<close>

fun topicsWithLevel :: "topic \<Rightarrow> nat \<Rightarrow> (nat \<times> topic) list" where
  "topicsWithLevel topic level =
     (level, topic) # concat (map (\<lambda>child. topicsWithLevel child (level + 1)) (getChildren topic))"

declare topicsWithLevel.simps [simp del]

text \<open>No title of the tree, as it is rendered, contains a line feed.\<close>

fun titlesOneLine :: "topic \<Rightarrow> bool" where
  "titlesOneLine topic =
     (NL \<notin> set (titleOrUnnamed topic) \<and> list_all titlesOneLine (getChildren topic))"

declare titlesOneLine.simps [simp del]

text \<open>The note of a node as a string: the empty string when there is none.\<close>

definition noteText :: "node \<Rightarrow> jsstring" where
  "noteText nd = (case node_note nd of None \<Rightarrow> [] | Some n \<Rightarrow> n)"

text \<open>
  A topic, as the reader sees it through the title fallback, getNote and getChildren,
  carries the node: the same title (the placeholder title for an empty one), the same
  note, and children that carry the children of the node, one by one in their order.
  Identifiers are not looked at.
\<close>

fun carries :: "topic \<Rightarrow> node \<Rightarrow> bool" where
  "carries tp (Node ttl nt cs) =
     (titleOrUnnamed tp = (if ttl = [] then UNNAMED_TOPIC else ttl) \<and>
      getNote tp = noteText (Node ttl nt cs) \<and>
      list_all2 (\<lambda>c tc. carries tc c) cs (getChildren tp))"

text \<open>The blocks that parseXMLTopic parses as the children of a block.\<close>

definition subBlocks :: "jsstring \<Rightarrow> jsstring list" where
  "subBlocks topicXML =
     concat (map (allElements (str ''topic'') 0) (allElements (str ''topics'') 0 topicXML))"

text \<open>A chain of topics titled \<open>t\<close>, each the only child of the one before: \<open>n + 1\<close> levels.\<close>

fun chainTopic :: "nat \<Rightarrow> topic" where
  "chainTopic 0 = Topic None None (Some (str ''t'')) None None None None"
| "chainTopic (Suc n) = Topic None None (Some (str ''t'')) None None (Some [chainTopic n]) None"

text \<open>Two sheets: a root \<open>A\<close> with one child \<open>c\<close>, and a root \<open>B\<close> alone.\<close>

definition sheetA :: sheet where
  "sheetA = Sheet None None None
     (Some (Topic None None (Some (str ''A'')) None None
              (Some [Topic None None (Some (str ''c'')) None None None None]) None))
     None"

definition sheetB :: sheet where
  "sheetB = Sheet None None None (Some (Topic None None (Some (str ''B'')) None None None None)) None"

text \<open>
  Sample data for the reader and the writer: a tree of four nodes, a tree that is a root
  with a note, identifiers \<open>uid k\<close> that spell the number \<open>k\<close> of the call, and a
  \<open>JSON.stringify\<close> and \<open>JSON.parse\<close> for the content of one package: the text \<open>"c"\<close>
  stands for the content written for the tree \<open>t\<close>.
\<close>

definition sampleTree :: node where
  "sampleTree = Node (str ''R'') None
     [Node (str ''a'') (Some (str ''an'')) [],
      Node (str ''b'') None [Node (str ''c'') (Some (str ''cn'')) []]]"

definition notedRoot :: node where
  "notedRoot = Node (str ''R'') (Some (str ''n'')) []"

definition sampleUid :: "nat \<Rightarrow> jsstring" where
  "sampleUid k = [int k]"

definition sampleStringify :: "jsonData \<Rightarrow> jsstring" where
  "sampleStringify d = (case d of DataArray sheets \<Rightarrow> str ''c'' | _ \<Rightarrow> str ''m'')"

definition sampleParse :: "node \<Rightarrow> jsstring \<Rightarrow> jsonData option" where
  "sampleParse t s =
     (if s = str ''c'' then Some (DataArray (fst (buildContent sampleUid t))) else None)"

text \<open>A \<open>JSON.parse\<close> that knows the text \<open>"[]"\<close> alone.\<close>

definition parseEmptyArray :: "jsstring \<Rightarrow> jsonData option" where
  "parseEmptyArray s = (if s = str ''[]'' then Some (DataArray []) else None)"

text \<open>An XML content with one sheet, and the sheets that the reader makes of it.\<close>

definition sampleXml :: jsstring where
  "sampleXml = str ''<sheet><topic><title>A</title></topic></sheet>''"

definition sampleXmlSheets :: "sheet list" where
  "sampleXmlSheets = [Sheet None None None (Some (Topic None None (Some (str ''A'')) None None None None)) None]"

text \<open>A topic block without title, with a note that has markup and white space around it.\<close>

definition untitledBlock :: jsstring where
  "untitledBlock = str ''<topic id=\"1\"><notes><plain> x <b>y</b> </plain></notes></topic>''"

section \<open>Properties of the Markdown parser\<close>

lemma popTo_take: "popTo n st = take n st"
proof (induction n st rule: popTo.induct)
  case (1 lvl st)
  show ?case
  proof (cases "length st > lvl")
    case True
    then have "popTo lvl st = take lvl (butlast st)" using 1 by (simp add: popTo.simps)
    also have "\<dots> = take lvl st" using True by (simp add: take_butlast)
    finally show ?thesis .
  next
    case False
    then show ?thesis by (simp add: popTo.simps)
  qed
qed

lemma keeps_pushChild: "keeps (pushChild c)"
  by (simp add: keeps_def pushChild_def)

lemma keeps_appendNote: "keeps (appendNote l)"
  by (simp add: keeps_def appendNote_def)

lemma get_at_append: "get_at (p @ r) t = (case get_at p t of None \<Rightarrow> None | Some m \<Rightarrow> get_at r m)"
  by (induction p arbitrary: t) auto

lemma get_at_upd_same: "get_at p t = Some n \<Longrightarrow> get_at p (upd_at p f t) = Some (f n)"
  by (induction p arbitrary: t) (auto split: if_splits)

lemma get_at_upd_keeps:
  "keeps f \<Longrightarrow> get_at q t = Some n \<Longrightarrow> \<exists>n'. get_at q (upd_at p f t) = Some n' \<and> title n' = title n"
proof (induction q arbitrary: p t)
  case Nil
  then show ?case by (cases p) (auto simp: keeps_def)
next
  case (Cons i q)
  from Cons.prems have i: "i < length (children t)" and g: "get_at q (children t ! i) = Some n"
    by (auto split: if_splits)
  show ?case
  proof (cases p)
    case Nil
    from Cons.prems(1) obtain cs where "children (f t) = children t @ cs"
      unfolding keeps_def by blast
    with i g Nil show ?thesis by (simp add: nth_append)
  next
    case (Cons j p')
    show ?thesis
    proof (cases "j < length (children t)")
      case False
      with Cons i g show ?thesis by simp
    next
      case True
      show ?thesis
      proof (cases "i = j")
        case True
        from Cons.IH[OF Cons.prems(1) g, of p'] obtain n' where
          "get_at q (upd_at p' f (children t ! i)) = Some n'" "title n' = title n" by blast
        with Cons True i show ?thesis by simp
      next
        case False
        with Cons True i g show ?thesis by simp
      qed
    qed
  qed
qed

lemma get_at_upd_new:
  assumes "get_at p t = Some n"
  shows "get_at (p @ [length (children n)]) (upd_at p (pushChild c) t) = Some c"
  using get_at_upd_same[OF assms, of "pushChild c"]
  by (simp add: get_at_append pushChild_def)

lemma get_at_setTitle: "q \<noteq> [] \<Longrightarrow> get_at q (setTitle x t) = get_at q t"
  by (cases q) (auto simp: setTitle_def)

lemma stackOk_init: "stackOk initState"
  by (simp add: stackOk_def initState_def)

lemma insertNode_eq:
  assumes "stackOk st" "1 \<le> d"
  defines "k \<equiv> min (length (pathStack st)) d"
  defines "parent \<equiv> pathStack st ! (k - 1)"
  shows "insertNode d c st = st \<lparr> struct := upd_at parent (pushChild c) (struct st),
            pathStack := take k (pathStack st) @ [parent @ [numChildren parent (struct st)]] \<rparr>"
proof -
  have ne: "pathStack st \<noteq> []" using assms(1) by (simp add: stackOk_def)
  have k1: "1 \<le> k" using ne assms(2) by (cases "pathStack st") (auto simp: k_def)
  have tk: "take d (pathStack st) = take k (pathStack st)" by (simp add: k_def min_def)
  have tne: "take k (pathStack st) \<noteq> []" using ne k1 by (cases "pathStack st") auto
  have kl: "k \<le> length (pathStack st)" by (simp add: k_def)
  have "last (take k (pathStack st)) = take k (pathStack st) ! (k - 1)"
    using tne kl by (simp add: last_conv_nth min_def)
  also have "\<dots> = pathStack st ! (k - 1)" using k1 by simp
  finally have "last (take k (pathStack st)) = pathStack st ! (k - 1)" .
  then show ?thesis using tne
    by (simp add: insertNode_def popTo_take tk Let_def parent_def)
qed

lemma stackOk_nth:
  "stackOk st \<Longrightarrow> i < length (pathStack st) \<Longrightarrow>
     length (pathStack st ! i) = i \<and> (\<exists>n. get_at (pathStack st ! i) (struct st) = Some n)"
  by (auto simp: stackOk_def)

lemma numChildren_Some: "get_at p t = Some n \<Longrightarrow> numChildren p t = length (children n)"
  by (simp add: numChildren_def)

lemma stackOk_insertNode:
  assumes "stackOk st" "1 \<le> d"
  shows "stackOk (insertNode d c st)"
proof -
  define k where "k = min (length (pathStack st)) d"
  define parent where "parent = pathStack st ! (k - 1)"
  define new where "new = parent @ [numChildren parent (struct st)]"
  define tree' where "tree' = upd_at parent (pushChild c) (struct st)"
  have ne: "pathStack st \<noteq> []" using assms(1) by (simp add: stackOk_def)
  have k1: "1 \<le> k" using ne assms(2) by (cases "pathStack st") (auto simp: k_def)
  have kl: "k \<le> length (pathStack st)" by (simp add: k_def)
  have eq: "insertNode d c st = st \<lparr> struct := tree', pathStack := take k (pathStack st) @ [new] \<rparr>"
    using insertNode_eq[OF assms, of c] by (simp add: k_def parent_def new_def tree'_def)
  have "k - 1 < length (pathStack st)" using k1 kl by arith
  from stackOk_nth[OF assms(1) this] obtain n where
    pl: "length parent = k - 1" and pn: "get_at parent (struct st) = Some n"
    by (auto simp: parent_def)
  have newl: "length new = k" using pl k1 by (simp add: new_def)
  have newg: "get_at new tree' = Some c"
    using get_at_upd_new[OF pn, of c] by (simp add: new_def tree'_def numChildren_Some[OF pn])
  have old: "length (pathStack st ! i) = i \<and> get_at (pathStack st ! i) tree' \<noteq> None" if "i < k" for i
  proof -
    from stackOk_nth[OF assms(1), of i] that kl obtain m where
      "length (pathStack st ! i) = i" "get_at (pathStack st ! i) (struct st) = Some m" by auto
    moreover from get_at_upd_keeps[OF keeps_pushChild[of c] this(2), of parent]
    have "get_at (pathStack st ! i) tree' \<noteq> None" by (auto simp: tree'_def)
    ultimately show ?thesis by simp
  qed
  have "length ((take k (pathStack st) @ [new]) ! i) = i \<and>
        get_at ((take k (pathStack st) @ [new]) ! i) tree' \<noteq> None"
    if "i < length (take k (pathStack st) @ [new])" for i
  proof (cases "i < k")
    case True
    then show ?thesis using old[OF True] kl by (simp add: nth_append)
  next
    case False
    with that kl have "i = k" by simp
    then show ?thesis using newl newg kl by (simp add: nth_append)
  qed
  then show ?thesis unfolding eq stackOk_def by simp
qed

lemma stackOk_upd_keeps:
  assumes "stackOk st" "keeps f"
  shows "stackOk (st \<lparr> struct := upd_at p f (struct st) \<rparr>)"
proof -
  have "get_at (pathStack st ! i) (upd_at p f (struct st)) \<noteq> None" if "i < length (pathStack st)" for i
  proof -
    from stackOk_nth[OF assms(1) that] obtain m where "get_at (pathStack st ! i) (struct st) = Some m"
      by auto
    from get_at_upd_keeps[OF assms(2) this, of p] show ?thesis by auto
  qed
  then show ?thesis using assms(1) by (simp add: stackOk_def)
qed

lemma stackOk_plainText: "stackOk st \<Longrightarrow> stackOk (plainText line st)"
  by (simp add: plainText_def Let_def stackOk_upd_keeps keeps_pushChild keeps_appendNote)

lemma stackOk_headingLine:
  assumes "stackOk st"
  shows "stackOk (headingLine level ttl st)"
proof (cases "level = 1 \<and> \<not> firstH1Found st")
  case True
  have ne: "pathStack st \<noteq> []" using assms by (simp add: stackOk_def)
  from stackOk_nth[OF assms, of 0] ne have "pathStack st ! 0 = []" by simp
  with ne have "take 1 (pathStack st) = [[]]" by (cases "pathStack st") auto
  with True show ?thesis by (simp add: headingLine_def stackOk_def)
next
  case False
  then show ?thesis using stackOk_insertNode[OF assms]
    by (auto simp: headingLine_def Let_def)
qed

lemma stackOk_processLine: "stackOk st \<Longrightarrow> stackOk (processLine raw st)"
  by (simp add: processLine_def bulletLine_def stackOk_insertNode stackOk_plainText
      stackOk_headingLine split: lineKind.splits)

lemma stackOk_processLines: "stackOk st \<Longrightarrow> stackOk (processLines ls st)"
  by (induction ls arbitrary: st) (simp_all add: stackOk_processLine)

lemma processLines_append: "processLines (xs @ ys) st = processLines ys (processLines xs st)"
  by (induction xs arbitrary: st) simp_all

text \<open>Nodes below the root keep their place and their title.\<close>

lemma struct_insertNode: "\<exists>p. struct (insertNode d c st) = upd_at p (pushChild c) (struct st)"
  by (rule exI[of _ "last (if popTo d (pathStack st) = [] then [[]] else popTo d (pathStack st))"])
     (simp add: insertNode_def Let_def)

lemma processLine_shape:
  "struct (processLine raw st) = struct st
   \<or> (\<exists>p f. keeps f \<and> struct (processLine raw st) = upd_at p f (struct st))
   \<or> (\<exists>x. struct (processLine raw st) = setTitle x (struct st))"
proof (cases "classifyLine raw")
  case Blank
  then show ?thesis by (simp add: processLine_def)
next
  case (Heading l x)
  show ?thesis
  proof (cases "l = 1 \<and> \<not> firstH1Found st")
    case True
    with Heading show ?thesis by (auto simp: processLine_def headingLine_def)
  next
    case False
    with Heading show ?thesis using struct_insertNode keeps_pushChild
      by (auto simp: processLine_def headingLine_def Let_def) metis+
  qed
next
  case (Bullet n x)
  then show ?thesis using struct_insertNode keeps_pushChild
    by (auto simp: processLine_def bulletLine_def) metis
next
  case (Plain l)
  then show ?thesis using keeps_pushChild keeps_appendNote
    by (auto simp: processLine_def plainText_def Let_def)
qed

lemma processLine_keeps_node:
  assumes "q \<noteq> []" "get_at q (struct st) = Some n"
  shows "\<exists>n'. get_at q (struct (processLine raw st)) = Some n' \<and> title n' = title n"
proof -
  consider "struct (processLine raw st) = struct st"
    | p f where "keeps f" "struct (processLine raw st) = upd_at p f (struct st)"
    | x where "struct (processLine raw st) = setTitle x (struct st)"
    using processLine_shape[of raw st] by blast
  then show ?thesis
  proof cases
    case 1
    with assms show ?thesis by simp
  next
    case 2
    with get_at_upd_keeps[OF 2(1) assms(2), of p] show ?thesis by simp
  next
    case 3
    with assms get_at_setTitle[OF assms(1)] show ?thesis by simp
  qed
qed

lemma processLines_keeps_node:
  "q \<noteq> [] \<Longrightarrow> get_at q (struct st) = Some n \<Longrightarrow>
   \<exists>n'. get_at q (struct (processLines ls st)) = Some n' \<and> title n' = title n"
proof (induction ls arbitrary: st n)
  case Nil
  then show ?case by simp
next
  case (Cons raw ls)
  from processLine_keeps_node[OF Cons.prems, of raw] obtain m where
    m: "get_at q (struct (processLine raw st)) = Some m" "title m = title n" by blast
  from Cons.IH[OF Cons.prems(1) m(1)] m(2) show ?case by auto
qed

lemma title_upd_keeps: "keeps f \<Longrightarrow> title (upd_at p f t) = title t"
  using get_at_upd_keeps[of f "[]" t t p] by simp

lemma found_insertNode: "firstH1Found (insertNode d c st) = firstH1Found st"
  by (simp add: insertNode_def Let_def)

lemma title_insertNode: "title (struct (insertNode d c st)) = title (struct st)"
  using struct_insertNode[of d c st] by (auto simp: title_upd_keeps keeps_pushChild)

lemma processLine_found: "firstH1Found (processLine raw st) = (firstH1Found st \<or> isH1 raw)"
  by (auto simp: processLine_def isH1_def headingLine_def bulletLine_def plainText_def
      found_insertNode Let_def split: lineKind.splits)

lemma processLines_found:
  "firstH1Found (processLines ls st) = (firstH1Found st \<or> list_ex isH1 ls)"
  by (induction ls arbitrary: st) (auto simp: processLine_found)

lemma processLine_title_found:
  "firstH1Found st \<Longrightarrow> title (struct (processLine raw st)) = title (struct st)"
  by (auto simp: processLine_def headingLine_def bulletLine_def plainText_def Let_def
      title_insertNode title_upd_keeps keeps_pushChild keeps_appendNote split: lineKind.splits)

lemma processLines_title_found:
  "firstH1Found st \<Longrightarrow> title (struct (processLines ls st)) = title (struct st)"
proof (induction ls arbitrary: st)
  case Nil
  then show ?case by simp
next
  case (Cons raw ls)
  have "firstH1Found (processLine raw st)" using Cons.prems by (simp add: processLine_found)
  from Cons.IH[OF this] show ?case using Cons.prems by (simp add: processLine_title_found)
qed

lemma parse_at:
  assumes "i < length (splitNL content)"
  shows "parseMarkdownToStructure content =
     struct (processLines (drop (Suc i) (splitNL content))
              (processLine (splitNL content ! i) (stateBefore content i)))"
proof -
  have "splitNL content = take i (splitNL content) @ (splitNL content ! i) # drop (Suc i) (splitNL content)"
    using assms by (simp add: id_take_nth_drop)
  then have "processLines (splitNL content) initState =
      processLines (drop (Suc i) (splitNL content))
              (processLine (splitNL content ! i) (stateBefore content i))"
    by (metis processLines_append processLines.simps(2) stateBefore_def)
  then show ?thesis by (simp add: parseMarkdownToStructure_def)
qed

lemma stackOk_stateBefore: "stackOk (stateBefore content i)"
  by (simp add: stateBefore_def stackOk_processLines stackOk_init)

lemma found_stateBefore:
  "firstH1Found (stateBefore content i) = list_ex isH1 (take i (splitNL content))"
  by (simp add: stateBefore_def processLines_found initState_def)

lemma matchHeading_level: "matchHeading s = Some (L, g) \<Longrightarrow> 1 \<le> L \<and> L \<le> 6"
  by (auto simp: matchHeading_def Let_def Suc_le_eq split: if_splits option.splits)

lemma classify_Heading_level: "classifyLine raw = Heading L t \<Longrightarrow> 1 \<le> L \<and> L \<le> 6"
  by (auto simp: classifyLine_def Let_def dest: matchHeading_level split: if_splits option.splits)

text \<open>What insertNode does to a state reached by the loop, and where the node ends up.\<close>

lemma insertNode_at:
  assumes "i < length (splitNL content)" "1 \<le> d"
    and "processLine (splitNL content ! i) (stateBefore content i) = insertNode d (Node t None []) (stateBefore content i)"
  shows "let st = stateBefore content i;
             st' = processLine (splitNL content ! i) st;
             stack = pathStack st;
             k = min (length stack) d;
             parent = stack ! (k - 1);
             new = parent @ [numChildren parent (struct st)]
         in 1 \<le> k \<and> pathStack st' = take k stack @ [new] \<and> length new = k \<and>
            struct st' = upd_at parent (pushChild (Node t None [])) (struct st) \<and>
            get_at new (struct st') = Some (Node t None []) \<and>
            map_option title (get_at new (parseMarkdownToStructure content)) = Some t \<and>
            firstH1Found st' = firstH1Found st \<and>
            (d \<le> length stack \<longrightarrow> length new = d)"
proof -
  define st where "st = stateBefore content i"
  define st' where "st' = processLine (splitNL content ! i) st"
  define k where "k = min (length (pathStack st)) d"
  define parent where "parent = pathStack st ! (k - 1)"
  define new where "new = parent @ [numChildren parent (struct st)]"
  have ok: "stackOk st" by (simp add: st_def stackOk_stateBefore)
  have ne: "pathStack st \<noteq> []" using ok by (simp add: stackOk_def)
  have k1: "1 \<le> k" using ne assms(2) by (cases "pathStack st") (auto simp: k_def)
  have kl: "k - 1 < length (pathStack st)" using k1 by (simp add: k_def) arith
  have eq: "st' = st \<lparr> struct := upd_at parent (pushChild (Node t None [])) (struct st),
                        pathStack := take k (pathStack st) @ [new] \<rparr>"
    using insertNode_eq[OF ok assms(2), of "Node t None []"] assms(3)
    by (simp add: st'_def st_def k_def parent_def new_def)
  from stackOk_nth[OF ok kl] obtain n where
    pl: "length parent = k - 1" and pn: "get_at parent (struct st) = Some n"
    by (auto simp: parent_def)
  have newl: "length new = k" using pl k1 by (simp add: new_def)
  have newg: "get_at new (struct st') = Some (Node t None [])"
    using get_at_upd_new[OF pn, of "Node t None []"]
    by (simp add: eq new_def numChildren_Some[OF pn])
  have "new \<noteq> []" by (simp add: new_def)
  from processLines_keeps_node[OF this newg, of "drop (Suc i) (splitNL content)"]
  have fin: "map_option title (get_at new (parseMarkdownToStructure content)) = Some t"
    by (auto simp: parse_at[OF assms(1)] st'_def st_def)
  have "firstH1Found st' = firstH1Found st" by (simp add: eq)
  moreover have "d \<le> length (pathStack st) \<longrightarrow> length new = d"
    using newl by (simp add: k_def)
  ultimately show ?thesis using k1 eq newl newg fin
    unfolding Let_def st_def[symmetric] st'_def[symmetric] k_def[symmetric]
      parent_def[symmetric] new_def[symmetric]
    by simp
qed

lemma in_set_dropWhile: "x \<in> set xs \<Longrightarrow> \<not> P x \<Longrightarrow> x \<in> set (dropWhile P xs)"
  by (induction xs) auto

lemma trim_Nil_iff: "trim s = [] \<longleftrightarrow> (\<forall>c\<in>set s. isSpace c)"
proof
  assume "trim s = []"
  then have a: "\<forall>c\<in>set (trimEnd s). isSpace c"
    by (simp add: trim_def trimStart_def dropWhile_eq_Nil_conv)
  show "\<forall>c\<in>set s. isSpace c"
  proof (rule ccontr)
    assume "\<not> (\<forall>c\<in>set s. isSpace c)"
    then obtain c where c: "c \<in> set s" "\<not> isSpace c" by blast
    then have "c \<in> set (dropWhile isSpace (rev s))" by (simp add: in_set_dropWhile)
    then have "c \<in> set (trimEnd s)" by (simp add: trimEnd_def)
    with a c show False by blast
  qed
next
  assume "\<forall>c\<in>set s. isSpace c"
  then have "trimEnd s = []" by (simp add: trimEnd_def dropWhile_eq_Nil_conv)
  then show "trim s = []" by (simp add: trim_def trimStart_def)
qed

lemma matchBullet_nonspace:
  assumes "matchBullet s = Some (n, g)"
  shows "\<exists>c\<in>set s. \<not> isSpace c"
proof -
  from assms obtain c r where d: "dropWhile isSpace s = c # r" and c: "c = 45 \<or> c = 42 \<or> c = 43"
    by (auto simp: matchBullet_def split: list.splits if_splits)
  from d have "c \<in> set (dropWhile isSpace s)" by simp
  then have "c \<in> set s" by (rule set_dropWhileD)
  moreover from c have "\<not> isSpace c" by (auto simp: isSpace_def)
  ultimately show ?thesis by blast
qed

lemma classify_Bullet:
  assumes "matchHeading (trim (trimEnd (stripFinalCR raw))) = None"
    and "matchBullet (trimEnd (stripFinalCR raw)) = Some (n, g)"
  shows "classifyLine raw = Bullet n (trim g)"
proof -
  from matchBullet_nonspace[OF assms(2)] have "trim (trimEnd (stripFinalCR raw)) \<noteq> []"
    by (simp add: trim_Nil_iff)
  with assms show ?thesis by (simp add: classifyLine_def Let_def)
qed

lemma classify_Bullet_only:
  "classifyLine raw = Bullet a b \<Longrightarrow> matchHeading (trim (trimEnd (stripFinalCR raw))) = None"
  by (auto simp: classifyLine_def Let_def split: if_splits option.splits)

lemma classify_Plain:
  "classifyLine raw = Plain line \<Longrightarrow> line = trimEnd (stripFinalCR raw) \<and> trim line \<noteq> []"
  by (auto simp: classifyLine_def Let_def split: if_splits option.splits)

lemma no_structure:
  "list_all isPlainOrBlank ls \<Longrightarrow> pathStack st = [[]] \<Longrightarrow> processLines ls st = st"
  by (induction ls arbitrary: st)
     (auto simp: isPlainOrBlank_def processLine_def plainText_def split: lineKind.splits)


text \<open>
  The node on top of the stack, when it is not the root, has no children: a pop is always
  followed by a push of a new node in the same turn of the loop, and the plain-text branch
  only reaches the top after its test for children.
\<close>

lemma insertNode_top:
  assumes "stackOk st" "1 \<le> d"
  shows "length (pathStack (insertNode d c st)) > 1 \<and>
         get_at (last (pathStack (insertNode d c st))) (struct (insertNode d c st)) = Some c"
proof -
  define k where "k = min (length (pathStack st)) d"
  define parent where "parent = pathStack st ! (k - 1)"
  define new where "new = parent @ [numChildren parent (struct st)]"
  have ne: "pathStack st \<noteq> []" using assms(1) by (simp add: stackOk_def)
  have k1: "1 \<le> k" using ne assms(2) by (cases "pathStack st") (auto simp: k_def)
  have kl: "k \<le> length (pathStack st)" by (simp add: k_def)
  have eq: "insertNode d c st = st \<lparr> struct := upd_at parent (pushChild c) (struct st),
              pathStack := take k (pathStack st) @ [new] \<rparr>"
    using insertNode_eq[OF assms, of c] by (simp add: k_def parent_def new_def)
  have "k - 1 < length (pathStack st)" using k1 kl by arith
  from stackOk_nth[OF assms(1) this] obtain n where pn: "get_at parent (struct st) = Some n"
    by (auto simp: parent_def)
  have newg: "get_at new (upd_at parent (pushChild c) (struct st)) = Some c"
    using get_at_upd_new[OF pn, of c] by (simp add: new_def numChildren_Some[OF pn])
  have "length (take k (pathStack st) @ [new]) > 1" using k1 kl by simp
  then show ?thesis using newg by (simp add: eq)
qed

lemma topIsLeaf_insertNode:
  "stackOk st \<Longrightarrow> 1 \<le> d \<Longrightarrow> children c = [] \<Longrightarrow> topIsLeaf (insertNode d c st)"
  using insertNode_top[of st d c] by (simp add: topIsLeaf_def numChildren_def)

lemma plainText_leaf:
  assumes "stackOk st" "topIsLeaf st" "length (pathStack st) > 1"
  shows "\<exists>cur. get_at (last (pathStack st)) (struct st) = Some cur \<and> children cur = [] \<and>
           plainText line st =
             st \<lparr> struct := upd_at (last (pathStack st)) (appendNote line) (struct st) \<rparr> \<and>
           get_at (last (pathStack st)) (struct (plainText line st)) = Some (appendNote line cur)"
proof -
  have ne: "pathStack st \<noteq> []" using assms(3) by auto
  have "length (pathStack st) - 1 < length (pathStack st)" using assms(3) by simp
  from stackOk_nth[OF assms(1) this] obtain cur where
    cur: "get_at (last (pathStack st)) (struct st) = Some cur"
    using ne by (auto simp: last_conv_nth)
  have nc: "numChildren (last (pathStack st)) (struct st) = 0"
    using assms(2,3) by (simp add: topIsLeaf_def)
  then have ch: "children cur = []" by (simp add: numChildren_Some[OF cur])
  have pl: "plainText line st =
      st \<lparr> struct := upd_at (last (pathStack st)) (appendNote line) (struct st) \<rparr>"
    using assms(3) nc by (simp add: plainText_def Let_def)
  have "get_at (last (pathStack st)) (struct (plainText line st)) = Some (appendNote line cur)"
    using get_at_upd_same[OF cur, of "appendNote line"] by (simp add: pl)
  with cur ch pl show ?thesis by blast
qed

lemma topIsLeaf_plainText:
  assumes "stackOk st" "topIsLeaf st"
  shows "topIsLeaf (plainText line st)"
proof (cases "length (pathStack st) > 1")
  case False
  then show ?thesis using assms(2) by (simp add: plainText_def)
next
  case True
  from plainText_leaf[OF assms True, of line] obtain cur where
    c: "children cur = []"
    and p: "plainText line st =
       st \<lparr> struct := upd_at (last (pathStack st)) (appendNote line) (struct st) \<rparr>"
    and g: "get_at (last (pathStack st)) (struct (plainText line st)) = Some (appendNote line cur)"
    by blast
  have "pathStack (plainText line st) = pathStack st" by (simp add: p)
  then show ?thesis using g c by (simp add: topIsLeaf_def numChildren_def appendNote_def)
qed

lemma topIsLeaf_headingLine:
  assumes "stackOk st"
  shows "topIsLeaf (headingLine level ttl st)"
proof (cases "level = 1 \<and> \<not> firstH1Found st")
  case True
  then show ?thesis by (simp add: headingLine_def topIsLeaf_def)
next
  case False
  then show ?thesis using topIsLeaf_insertNode[OF assms]
    by (auto simp: headingLine_def Let_def)
qed

lemma topIsLeaf_processLine:
  "stackOk st \<Longrightarrow> topIsLeaf st \<Longrightarrow> topIsLeaf (processLine raw st)"
  by (simp add: processLine_def bulletLine_def topIsLeaf_insertNode topIsLeaf_plainText
      topIsLeaf_headingLine split: lineKind.splits)

lemma topIsLeaf_processLines:
  "stackOk st \<Longrightarrow> topIsLeaf st \<Longrightarrow> topIsLeaf (processLines ls st)"
  by (induction ls arbitrary: st) (simp_all add: topIsLeaf_processLine stackOk_processLine)

lemma topIsLeaf_init: "topIsLeaf initState"
  by (simp add: topIsLeaf_def initState_def)

lemma topIsLeaf_stateBefore: "topIsLeaf (stateBefore content i)"
  by (simp add: stateBefore_def topIsLeaf_processLines stackOk_init topIsLeaf_init)

section \<open>Properties of the heading restructurer\<close>

lemma collectHeaders_append:
  "collectHeaders (xs @ ys) i = collectHeaders xs i @ collectHeaders ys (i + length xs)"
  by (induction xs arbitrary: i) (auto split: option.splits)

lemma collectHeaders_fst_ge: "h \<in> set (collectHeaders ls i) \<Longrightarrow> i \<le> fst h"
  by (induction ls arbitrary: i) (force split: option.splits)+

lemma collectHeaders_fst_lt: "h \<in> set (collectHeaders ls i) \<Longrightarrow> fst h < i + length ls"
  by (induction ls arbitrary: i) (force split: option.splits)+

lemma collectHeaders_snd:
  "map snd (collectHeaders ls i) = List.map_filter lineHeading ls"
  by (induction ls arbitrary: i)
     (auto simp: lineHeading_def split: option.splits)

lemma scanHeaders_skip:
  "\<forall>h\<in>set A. fst h \<noteq> i \<Longrightarrow> j \<le> length A \<Longrightarrow>
   scanHeaders (A @ B) i j = scanHeaders (A @ B) i (length A)"
proof (induction "length A - j" arbitrary: j)
  case 0
  then show ?case by simp
next
  case (Suc n)
  then have j: "j < length A" by arith
  then have "fst ((A @ B) ! j) \<noteq> i" using Suc.prems(1) by (simp add: nth_append)
  then have "scanHeaders (A @ B) i j = scanHeaders (A @ B) i (Suc j)"
    using j by (subst scanHeaders.simps) simp
  also have "\<dots> = scanHeaders (A @ B) i (length A)"
    using Suc.hyps(1)[of "Suc j"] Suc.hyps(2) Suc.prems(1) j by simp
  finally show ?case .
qed

lemma scanHeaders_none:
  assumes "\<forall>h\<in>set A. fst h \<noteq> i"
  shows "scanHeaders A i 0 = (False, False, [])"
proof -
  have "scanHeaders (A @ []) i 0 = scanHeaders (A @ []) i (length A)"
    by (rule scanHeaders_skip[OF assms]) simp
  then show ?thesis by (simp add: scanHeaders.simps[of A i "length A"])
qed

lemma findParentH2_prefix: "findParentH2 (A @ B) (length A) = labelOf A"
proof (induction A arbitrary: B rule: rev_induct)
  case Nil
  then show ?case by (simp add: labelOf_def)
next
  case (snoc h A)
  have "findParentH2 ((A @ [h]) @ B) (length (A @ [h])) =
        (if fst (snd h) = 2 then snd (snd h) else findParentH2 (A @ (h # B)) (length A))"
    by (simp add: nth_append)
  also have "\<dots> = labelOf (A @ [h])"
    using snoc[of "h # B"] by (simp add: labelOf_def)
  finally show ?case .
qed

lemma labelOf_collect: "labelOf (collectHeaders pre i) = sectionLabel pre"
  by (simp add: labelOf_def sectionLabel_def collectHeaders_snd)

text \<open>The inner loop classifies line \<open>i\<close> as the specification does.\<close>

lemma scanHeaders_line:
  assumes "i < length lines"
  shows "scanHeaders (collectHeaders lines 0) i 0 =
     (case lineHeading (lines ! i) of
        None \<Rightarrow> (False, False, [])
      | Some (level, t) \<Rightarrow>
          (level = 2, level = 3, if level = 3 then sectionLabel (take i lines) else []))"
proof -
  define pre where "pre = take i lines"
  define rest where "rest = drop (Suc i) lines"
  define l where "l = lines ! i"
  have lines: "lines = pre @ l # rest"
    using assms by (simp add: pre_def rest_def l_def id_take_nth_drop)
  have lp: "length pre = i" using assms by (simp add: pre_def)
  define A where "A = collectHeaders pre 0"
  define C where "C = collectHeaders rest (Suc i)"
  have Ai: "\<forall>h\<in>set A. fst h \<noteq> i"
  proof
    fix h assume "h \<in> set A"
    then have "fst h < 0 + length pre" unfolding A_def by (rule collectHeaders_fst_lt)
    then show "fst h \<noteq> i" using lp by simp
  qed
  have Ci: "\<forall>h\<in>set C. fst h \<noteq> i"
  proof
    fix h assume "h \<in> set C"
    then have "Suc i \<le> fst h" unfolding C_def by (rule collectHeaders_fst_ge)
    then show "fst h \<noteq> i" by simp
  qed
  show ?thesis
  proof (cases "matchHeading (trim l)")
    case None
    then have H: "collectHeaders lines 0 = A @ C"
      by (simp add: lines collectHeaders_append A_def C_def lp)
    have "\<forall>h\<in>set (A @ C). fst h \<noteq> i" using Ai Ci by auto
    from scanHeaders_none[OF this] None show ?thesis
      by (simp add: H lineHeading_def l_def[symmetric])
  next
    case (Some kg)
    obtain k g where kg: "kg = (k, g)" by (cases kg)
    have H: "collectHeaders lines 0 = A @ (i, k, trim g) # C"
      using Some kg by (simp add: lines collectHeaders_append A_def C_def lp)
    have "scanHeaders (A @ (i, k, trim g) # C) i 0 = scanHeaders (A @ (i, k, trim g) # C) i (length A)"
      by (rule scanHeaders_skip[OF Ai]) simp
    also have "\<dots> = (k = 2, k = 3,
        if k = 3 then findParentH2 (A @ (i, k, trim g) # C) (length A) else [])"
      by (subst scanHeaders.simps) simp
    also have "findParentH2 (A @ (i, k, trim g) # C) (length A) = sectionLabel pre"
      by (simp add: findParentH2_prefix A_def labelOf_collect)
    finally show ?thesis using Some kg
      by (simp add: H lineHeading_def l_def[symmetric] pre_def)
  qed
qed

lemma buildResult_spec:
  "i \<le> length lines \<Longrightarrow>
   buildResult lines (collectHeaders lines 0) i result =
     result @ concat (map (restructureLine lines) [i..<length lines])"
proof (induction "length lines - i" arbitrary: i result)
  case 0
  then show ?case by (simp add: buildResult.simps)
next
  case (Suc n)
  then have i: "i < length lines" by arith
  have up: "[i..<length lines] = i # [Suc i..<length lines]" using i by (simp add: upt_conv_Cons)
  have IH: "buildResult lines (collectHeaders lines 0) (Suc i) r =
     r @ concat (map (restructureLine lines) [Suc i..<length lines])" for r
    using Suc.hyps(1)[of "Suc i" r] Suc.hyps(2) i by simp
  show ?case
    using i
    by (subst buildResult.simps)
       (auto simp: scanHeaders_line[OF i] IH up restructureLine_def split: option.splits)
qed

subsection \<open>One pass with the current label\<close>

lemma sectionLabel_snoc:
  "sectionLabel (pre @ [l]) =
     (case lineHeading l of
        None \<Rightarrow> sectionLabel pre
      | Some (level, t) \<Rightarrow> if level = 2 then t else sectionLabel pre)"
  by (auto simp: sectionLabel_def List.map_filter_def split: option.splits)

lemma restructure_relabel:
  "concat (map (restructureLine (pre @ ls)) [length pre..<length pre + length ls]) =
     relabel (sectionLabel pre) ls"
proof (induction ls arbitrary: pre)
  case Nil
  then show ?case by simp
next
  case (Cons l ls)
  have up: "[length pre..<length pre + length (l # ls)] =
            length pre # [length (pre @ [l])..<length (pre @ [l]) + length ls]"
    by (subst upt_rec) simp
  have IH: "concat (map (restructureLine (pre @ l # ls)) [length (pre @ [l])..<length (pre @ [l]) + length ls]) =
     relabel (sectionLabel (pre @ [l])) ls"
    using Cons.IH[of "pre @ [l]"] by simp
  have hd: "restructureLine (pre @ l # ls) (length pre) =
     (case lineHeading l of
        None \<Rightarrow> [l]
      | Some (level, t) \<Rightarrow>
          if level = 2 then []
          else if level = 3 then [str ''## '' @ sectionLabel pre, l]
          else [l])"
    by (auto simp: restructureLine_def split: option.splits)
  show ?case
    unfolding up
    by (simp only: list.map concat.simps IH hd)
       (auto simp: sectionLabel_snoc split: option.splits)
qed

lemma restructureSpec_relabel: "restructureSpec lines = relabel UNCLASSIFIED lines"
  using restructure_relabel[of "[]" lines]
  by (simp add: restructureSpec_def sectionLabel_def List.map_filter_def)

subsection \<open>Labels\<close>

lemma trim_ends:
  "trim s \<noteq> [] \<Longrightarrow> \<not> isSpace (hd (trim s)) \<and> \<not> isSpace (last (trim s))"
proof -
  assume ne: "trim s \<noteq> []"
  have h: "\<not> isSpace (hd (trim s))"
    using ne by (simp add: trim_def trimStart_def hd_dropWhile)
  have te: "trimEnd s \<noteq> []" using ne by (auto simp: trim_def trimStart_def)
  then have "dropWhile isSpace (rev s) \<noteq> []" by (simp add: trimEnd_def)
  then have "\<not> isSpace (hd (dropWhile isSpace (rev s)))" by (rule hd_dropWhile)
  then have le: "\<not> isSpace (last (trimEnd s))"
    using te by (simp add: trimEnd_def last_rev)
  have "trimEnd s = takeWhile isSpace (trimEnd s) @ trim s"
    by (simp add: trim_def trimStart_def)
  then have "last (trimEnd s) = last (trim s)" using ne by (metis last_appendR)
  with h le show ?thesis by simp
qed

lemma trim_id: "s \<noteq> [] \<Longrightarrow> \<not> isSpace (hd s) \<Longrightarrow> \<not> isSpace (last s) \<Longrightarrow> trim s = s"
proof -
  assume a: "s \<noteq> []" "\<not> isSpace (hd s)" "\<not> isSpace (last s)"
  then have "dropWhile isSpace (rev s) = rev s"
    by (cases "rev s") (auto simp: hd_rev)
  then have "trimEnd s = s" by (simp add: trimEnd_def)
  moreover have "dropWhile isSpace s = s" using a by (cases s) auto
  ultimately show ?thesis by (simp add: trim_def trimStart_def)
qed

lemma goodLabel_trim: "goodLabel t \<Longrightarrow> trim t = t"
  by (simp add: goodLabel_def trim_id)

lemma goodLabel_UNCLASSIFIED: "goodLabel UNCLASSIFIED"
  by (simp add: goodLabel_def UNCLASSIFIED_def isSpace_def isLineTerminator_def)

lemma matchSpaceText_trimmed:
  assumes "matchSpaceText r = Some g" "r \<noteq> []" "\<not> isSpace (last r)"
  shows "goodLabel g"
proof -
  define ws where "ws = takeWhile isSpace r"
  define body where "body = dropWhile isSpace r"
  have r: "r = ws @ body" by (simp add: ws_def body_def)
  have bne: "body \<noteq> []"
  proof
    assume "body = []"
    then have "\<forall>c\<in>set r. isSpace c" by (simp add: body_def dropWhile_eq_Nil_conv)
    with assms(2,3) show False by simp
  qed
  with assms(1) have g: "g = body" and nlt: "\<not> list_ex isLineTerminator body"
    by (auto simp: matchSpaceText_def Let_def ws_def body_def split: if_splits)
  have "\<not> isSpace (hd body)" using bne unfolding body_def by (rule hd_dropWhile)
  moreover have "last body = last r" using bne r by (metis last_appendR)
  ultimately show ?thesis using bne nlt assms(3) by (simp add: goodLabel_def g)
qed

lemma lineHeading_good:
  assumes "lineHeading l = Some (level, t)"
  shows "goodLabel t"
proof -
  from assms obtain g where m: "matchHeading (trim l) = Some (level, g)" and t: "t = trim g"
    by (auto simp: lineHeading_def)
  define r where "r = dropWhile (\<lambda>c. c = HASH) (trim l)"
  from m have ms: "matchSpaceText r = Some g"
    by (auto simp: matchHeading_def Let_def r_def split: if_splits option.splits)
  then have rne: "r \<noteq> []" by (auto simp: matchSpaceText_def Let_def split: if_splits)
  then have tne: "trim l \<noteq> []" by (auto simp: r_def)
  have "trim l = takeWhile (\<lambda>c. c = HASH) (trim l) @ r" by (simp add: r_def)
  then have "last (trim l) = last r" using rne by (metis last_appendR)
  then have "\<not> isSpace (last r)" using trim_ends[OF tne] by simp
  from matchSpaceText_trimmed[OF ms rne this] have "goodLabel g" .
  then show ?thesis by (simp add: t goodLabel_trim)
qed

lemma lineHeading_synth:
  assumes "goodLabel t"
  shows "lineHeading (str ''## '' @ t) = Some (2, t)"
proof -
  from assms obtain c cs where t: "t = c # cs" and c: "\<not> isSpace c"
    by (cases t) (auto simp: goodLabel_def)
  have lt: "\<not> isSpace (last t)" and nlt: "\<not> list_ex isLineTerminator t"
    using assms by (auto simp: goodLabel_def)
  have s: "str ''## '' = [35, 35, 32]" by (simp add: str_def)
  have sp: "isSpace 32" and nsp: "\<not> isSpace 35" by (simp_all add: isSpace_def)
  have "trim ([35, 35, 32] @ t) = [35, 35, 32] @ t"
    by (rule trim_id) (use lt t nsp in auto)
  moreover have "matchHeading ([35, 35, 32] @ t) = Some (2, t)"
    using c nlt t sp by (simp add: matchHeading_def matchSpaceText_def HASH_def Let_def)
  ultimately show ?thesis using goodLabel_trim[OF assms] by (simp add: lineHeading_def s)
qed

subsection \<open>A second pass changes nothing\<close>

lemma relabel_idem:
  "goodLabel lbl \<Longrightarrow> relabel lbl' (relabel lbl ls) = relabel lbl ls"
proof (induction ls arbitrary: lbl lbl')
  case Nil
  then show ?case by simp
next
  case (Cons l ls)
  show ?case
  proof (cases "lineHeading l")
    case None
    then show ?thesis using Cons by simp
  next
    case (Some a)
    obtain level t where a: "a = (level, t)" by (cases a)
    have gt: "goodLabel t" using lineHeading_good Some a by blast
    consider "level = 2" | "level = 3" | "level \<noteq> 2" "level \<noteq> 3" by blast
    then show ?thesis
    proof cases
      case 1
      then show ?thesis using Some a Cons.IH[OF gt] by simp
    next
      case 2
      then show ?thesis
        using Some a Cons.IH[OF Cons.prems] lineHeading_synth[OF Cons.prems] by simp
    next
      case 3
      then show ?thesis using Some a Cons.IH[OF Cons.prems] by simp
    qed
  qed
qed

subsection \<open>Splitting what was joined\<close>

lemma splitNL_ne: "splitNL s \<noteq> []"
  by (induction s) (auto split: list.splits)

lemma splitNL_no_NL: "l \<in> set (splitNL s) \<Longrightarrow> NL \<notin> set l"
  by (induction s arbitrary: l) (auto split: list.splits if_splits)

lemma splitNL_line: "NL \<notin> set a \<Longrightarrow> splitNL a = [a]"
  by (induction a) auto

lemma splitNL_append: "NL \<notin> set a \<Longrightarrow> splitNL (a @ NL # b) = a # splitNL b"
  by (induction a) auto

lemma splitNL_joinNL:
  "ys \<noteq> [] \<Longrightarrow> \<forall>l\<in>set ys. NL \<notin> set l \<Longrightarrow> splitNL (joinNL ys) = ys"
  by (induction ys rule: joinNL.induct) (auto simp: splitNL_line splitNL_append)

lemma goodLabel_no_NL: "goodLabel t \<Longrightarrow> NL \<notin> set t"
  by (auto simp: goodLabel_def list_ex_iff isLineTerminator_def NL_def)

lemma relabel_no_NL:
  "goodLabel lbl \<Longrightarrow> \<forall>l\<in>set ls. NL \<notin> set l \<Longrightarrow> \<forall>l\<in>set (relabel lbl ls). NL \<notin> set l"
proof (induction ls arbitrary: lbl)
  case Nil
  then show ?case by simp
next
  case (Cons l ls)
  have s: "NL \<notin> set (str ''## '')" by (simp add: str_def NL_def)
  show ?case
  proof (cases "lineHeading l")
    case None
    then show ?thesis using Cons by simp
  next
    case (Some a)
    obtain level t where a: "a = (level, t)" by (cases a)
    have gt: "goodLabel t" using lineHeading_good Some a by blast
    show ?thesis
      using Some a Cons.IH[OF gt] Cons.IH[OF Cons.prems(1)] Cons.prems
        goodLabel_no_NL[OF Cons.prems(1)] s
      by auto
  qed
qed

section \<open>Properties of the renderer\<close>

lemma leadingHashes_headerLine: "leadingHashes (headerLine level ttl) \<le> 6"
proof (cases "level \<le> 6")
  case True
  have "repeat (str ''#'') level = replicate level HASH"
    by (induction level) (simp_all add: repeat_def str_def HASH_def)
  then have "headerLine level ttl = replicate level HASH @ 32 # ttl"
    using True by (simp add: headerLine_def str_def)
  moreover have "takeWhile (\<lambda>c. c = HASH) (replicate level HASH @ 32 # ttl) = replicate level HASH"
    by (induction level) (simp_all add: HASH_def)
  ultimately show ?thesis using True by (simp add: leadingHashes_def)
next
  case False
  define n where "n = level - 7"
  have "takeWhile (\<lambda>c. c = HASH) (repeat (str ''  '') n @ str ''- '' @ ttl) = []"
    by (cases n) (simp_all add: repeat_def str_def HASH_def)
  then show ?thesis using False by (simp add: headerLine_def leadingHashes_def n_def)
qed

lemma leadingHashes_note: "l \<in> set (headerNoteLines n) \<Longrightarrow> leadingHashes l \<le> 6"
  by (auto simp: headerNoteLines_def leadingHashes_def str_def HASH_def split: if_splits)

lemma fold_inv:
  assumes "\<And>x acc. x \<in> set xs \<Longrightarrow> P acc \<Longrightarrow> P (f x acc)" "P a"
  shows "P (fold f xs a)"
  using assms by (induction xs arbitrary: a) auto

lemma toHeaderMd_lines:
  "\<forall>l\<in>set out. leadingHashes l \<le> 6 \<Longrightarrow> \<forall>l\<in>set (toHeaderMd topic level out). leadingHashes l \<le> 6"
proof (induction topic level out rule: toHeaderMd.induct)
  case (1 topic level out)
  define out2 where "out2 = out @ [headerLine level (titleOrUnnamed topic)] @
      headerNoteLines (trim (getNote topic))"
  have o2: "\<forall>l\<in>set out2. leadingHashes l \<le> 6"
    using "1.prems" leadingHashes_headerLine leadingHashes_note by (auto simp: out2_def)
  have "\<forall>l\<in>set (fold (\<lambda>child acc. toHeaderMd child (level + 1) acc) (getChildren topic) out2).
          leadingHashes l \<le> 6"
    by (rule fold_inv[where P = "\<lambda>acc. \<forall>l\<in>set acc. leadingHashes l \<le> 6"])
       (use "1.IH" o2 in \<open>auto simp: out2_def\<close>)
  then show ?case
    by (subst toHeaderMd.simps) (auto simp: Let_def out2_def leadingHashes_def)
qed

lemma fold_acc:
  assumes "\<And>x acc. x \<in> set xs \<Longrightarrow> f x acc = acc @ f x []"
  shows "fold f xs a = a @ concat (map (\<lambda>x. f x []) xs)"
  using assms
proof (induction xs arbitrary: a)
  case Nil
  show ?case by simp
next
  case (Cons x xs)
  have IH: "fold f xs b = b @ concat (map (\<lambda>x. f x []) xs)" for b
    by (rule Cons.IH) (rule Cons.prems, simp)
  have fx: "f x a = a @ f x []" by (rule Cons.prems) simp
  have "fold f (x # xs) a = fold f xs (f x a)" by simp
  also have "\<dots> = f x a @ concat (map (\<lambda>x. f x []) xs)" by (rule IH)
  also have "\<dots> = (a @ f x []) @ concat (map (\<lambda>x. f x []) xs)" by (simp only: fx)
  finally show ?case by simp
qed

lemma toHeaderMd_unfold:
  "toHeaderMd topic level a =
     fold (\<lambda>child acc. toHeaderMd child (level + 1) acc) (getChildren topic)
          (a @ headerLine level (titleOrUnnamed topic) # headerNoteLines (trim (getNote topic))) @
     (if level \<le> 3 then [[]] else [])"
  unfolding toHeaderMd.simps[of topic level a] Let_def by simp

lemma toHeaderMd_acc: "toHeaderMd topic level out = out @ toHeaderMd topic level []"
proof (induction topic level out rule: toHeaderMd.induct)
  case (1 topic level out)
  have f: "fold (\<lambda>child acc. toHeaderMd child (level + 1) acc) (getChildren topic) a =
        a @ concat (map (\<lambda>child. toHeaderMd child (level + 1) []) (getChildren topic))" for a
  proof (rule fold_acc)
    fix x acc assume x: "x \<in> set (getChildren topic)"
    show "toHeaderMd x (level + 1) acc = acc @ toHeaderMd x (level + 1) []"
      using "1.IH"[OF refl refl x] .
  qed
  show ?case
    unfolding toHeaderMd_unfold[of topic level out] toHeaderMd_unfold[of topic level "[]"] f
    by simp
qed

text \<open>The lines of a topic in header mode: its own line, the lines of its note, the lines
  of its children, and an empty line up to level 3.\<close>

lemma toHeaderMd_eq:
  "toHeaderMd topic level [] =
     headerLine level (titleOrUnnamed topic) # headerNoteLines (trim (getNote topic)) @
     concat (map (\<lambda>child. toHeaderMd child (level + 1) []) (getChildren topic)) @
     (if level \<le> 3 then [[]] else [])"
proof -
  have "fold (\<lambda>child acc. toHeaderMd child (level + 1) acc) (getChildren topic) a =
        a @ concat (map (\<lambda>child. toHeaderMd child (level + 1) []) (getChildren topic))" for a
    by (rule fold_acc) (rule toHeaderMd_acc)
  then show ?thesis unfolding toHeaderMd_unfold[of topic level "[]"] by simp
qed

lemma subseq_concat_map:
  "(\<And>x. x \<in> set xs \<Longrightarrow> subseq (f x) (g x)) \<Longrightarrow> subseq (concat (map f xs)) (concat (map g xs))"
  by (induction xs) (auto intro: list_emb_append_mono)

lemma toHeaderMd_nodes:
  "subseq (map (\<lambda>(l, t). headerLine l (titleOrUnnamed t)) (topicsWithLevel topic level))
          (toHeaderMd topic level [])"
proof (induction topic level rule: topicsWithLevel.induct)
  case (1 topic level)
  have c: "subseq (concat (map (\<lambda>child. map (\<lambda>(l, t). headerLine l (titleOrUnnamed t))
                                   (topicsWithLevel child (level + 1))) (getChildren topic)))
                  (concat (map (\<lambda>child. toHeaderMd child (level + 1) []) (getChildren topic)))"
    by (rule subseq_concat_map) (rule 1)
  have "subseq (concat (map (\<lambda>child. map (\<lambda>(l, t). headerLine l (titleOrUnnamed t))
                                   (topicsWithLevel child (level + 1))) (getChildren topic)))
               (headerNoteLines (trim (getNote topic)) @
                concat (map (\<lambda>child. toHeaderMd child (level + 1) []) (getChildren topic)) @
                (if level \<le> 3 then [[]] else []))"
    using c by (meson list_emb_append2 list_emb_prefix)
  then show ?case
    unfolding topicsWithLevel.simps[of topic level] toHeaderMd_eq[of topic level]
    by (simp add: map_concat comp_def)
qed

lemma headerLine_NL: "NL \<notin> set ttl \<Longrightarrow> NL \<notin> set (headerLine level ttl)"
  by (auto simp: headerLine_def repeat_def str_def NL_def)

lemma headerNoteLines_NL: "l \<in> set (headerNoteLines n) \<Longrightarrow> NL \<notin> set l"
  by (auto simp: headerNoteLines_def str_def NL_def dest: splitNL_no_NL split: if_splits)

lemma toHeaderMd_NL:
  "titlesOneLine topic \<Longrightarrow> l \<in> set (toHeaderMd topic level []) \<Longrightarrow> NL \<notin> set l"
proof (induction topic level arbitrary: l rule: topicsWithLevel.induct)
  case (1 topic level)
  from "1.prems"(1) have "NL \<notin> set (titleOrUnnamed topic) \<and> list_all titlesOneLine (getChildren topic)"
    by (simp add: titlesOneLine.simps[of topic])
  then have t: "NL \<notin> set (titleOrUnnamed topic)"
    and c: "\<forall>child\<in>set (getChildren topic). titlesOneLine child"
    by (simp_all add: list_all_iff)
  from "1.prems"(2) consider "l = headerLine level (titleOrUnnamed topic)"
    | "l \<in> set (headerNoteLines (trim (getNote topic)))"
    | child where "child \<in> set (getChildren topic)" "l \<in> set (toHeaderMd child (level + 1) [])"
    | "l = []"
    unfolding toHeaderMd_eq[of topic level] by (auto split: if_splits)
  then show ?case
  proof cases
    case 1
    then show ?thesis using t headerLine_NL by simp
  next
    case 2
    then show ?thesis by (rule headerNoteLines_NL)
  next
    case 3
    then show ?thesis using "1.IH" c by blast
  next
    case 4
    then show ?thesis by simp
  qed
qed

lemma repeat_hash: "repeat (str ''#'') n = replicate n HASH"
  by (induction n) (simp_all add: repeat_def str_def HASH_def)

lemma repeat_indent: "repeat (str ''  '') n = replicate (2 * n) SP"
  by (induction n) (simp_all add: repeat_def str_def SP_def)

lemma headerLine_eq:
  "headerLine D ttl =
     (if D \<le> 6 then replicate D HASH @ SP # ttl
      else replicate (2 * (D - 7)) SP @ 45 # SP # ttl)"
  unfolding headerLine_def repeat_hash repeat_indent by (simp add: str_def SP_def)

lemma toHeaderMd_ne: "toHeaderMd topic level [] \<noteq> []"
  unfolding toHeaderMd_eq[of topic level] by simp

lemma header_lines_of_text:
  assumes "titlesOneLine topic"
  shows "splitNL (joinNL (toHeaderMd topic level [])) = toHeaderMd topic level []"
  by (rule splitNL_joinNL[OF toHeaderMd_ne]) (use toHeaderMd_NL[OF assms] in blast)

lemma joinNL_snoc: "xs \<noteq> [] \<Longrightarrow> joinNL (xs @ [y]) = joinNL xs @ NL # y"
  by (induction xs rule: joinNL.induct) auto

lemma header_output_ends:
  assumes "format \<noteq> str ''list''"
  shows "sheetOutput format topic = joinNL (butlast (toHeaderMd topic 1 [])) @ [NL]"
proof -
  define body where "body = headerLine 1 (titleOrUnnamed topic) # headerNoteLines (trim (getNote topic)) @
     concat (map (\<lambda>child. toHeaderMd child (1 + 1) []) (getChildren topic))"
  have e: "toHeaderMd topic 1 [] = body @ [[]]"
    unfolding toHeaderMd_eq[of topic 1] body_def by simp
  have "body \<noteq> []" by (simp add: body_def)
  then have "joinNL (body @ [[]]) = joinNL body @ [NL]" by (simp add: joinNL_snoc)
  then show ?thesis unfolding sheetOutput_def e using assms by simp
qed

lemma sheetOutputs_eq:
  "sheetOutputs format sheets = map (sheetOutput format) (List.map_filter sheetTopic sheets)"
  by (induction sheets) (auto simp: sheetOutputs_def List.map_filter_def split: option.splits)

section \<open>Properties of the writer and of the XML reader\<close>

lemma buildTopic_carries:
  "carries (fst (buildTopic uid nd k)) nd"
  "list_all2 (\<lambda>c tc. carries tc c) cs (fst (buildTopics uid cs k))"
proof (induction uid nd k and uid cs k rule: buildTopic_buildTopics.induct)
  case (1 uid ttl nt cs k)
  obtain built k' where b: "buildTopics uid cs (Suc k) = (built, k')" by (cases "buildTopics uid cs (Suc k)")
  from 1 b have c: "list_all2 (\<lambda>c tc. carries tc c) cs built" by simp
  show ?case
    using b c
    by (auto simp: titleOrUnnamed_def getNote_def getChildren_def noteText_def split: option.splits)
next
  case (2 uid k)
  then show ?case by simp
next
  case (3 uid c cs k)
  obtain t k1 where a: "buildTopic uid c k = (t, k1)" by (cases "buildTopic uid c k")
  obtain ts k2 where b: "buildTopics uid cs k1 = (ts, k2)" by (cases "buildTopics uid cs k1")
  from 3 a b show ?case by simp
qed

lemma rootTitle_ne: "rootTitle tree \<noteq> []"
  by (simp add: rootTitle_def MINDMAP_def)



lemma firstTitle_find:
  "firstTitle s = Some g \<Longrightarrow> findCI (str ''<title>'') s \<noteq> None"
proof (induction s)
  case Nil
  then show ?case by simp
next
  case (Cons c cs)
  show ?case
  proof (cases "startsWithCI (str ''<title>'') (c # cs)")
    case True
    then show ?thesis by simp
  next
    case False
    then have "matchTitleAt (c # cs) = None" by (simp add: matchTitleAt_def)
    with Cons.prems have "firstTitle cs = Some g" by simp
    from Cons.IH[OF this] False show ?thesis by (auto split: option.splits)
  qed
qed

lemma stripTagsFrom_subset: "set (stripTagsFrom b s) \<subseteq> set s"
  by (induction s arbitrary: b) auto

lemma stripTagsFrom_no_tag: "\<not> hasTag (stripTagsFrom b s)"
proof (induction s arbitrary: b)
  case Nil
  then show ?case by simp
next
  case (Cons c cs)
  have "62 \<notin> set (stripTagsFrom False cs)" if "62 \<notin> set cs"
    using that stripTagsFrom_subset[of False cs] by blast
  then show ?case using Cons by auto
qed

lemma hasTag_append2: "hasTag b \<Longrightarrow> hasTag (a @ b)"
  by (induction a) auto

lemma hasTag_append1: "hasTag a \<Longrightarrow> hasTag (a @ b)"
  by (induction a) auto

lemma trim_decomp: "\<exists>a b. s = a @ trim s @ b"
proof -
  have "rev (dropWhile isSpace (rev s)) @ rev (takeWhile isSpace (rev s)) =
        rev (takeWhile isSpace (rev s) @ dropWhile isSpace (rev s))"
    by (simp only: rev_append)
  also have "\<dots> = rev (rev s)" by (simp only: takeWhile_dropWhile_id)
  finally have 1: "s = trimEnd s @ rev (takeWhile isSpace (rev s))" by (simp add: trimEnd_def)
  have 2: "trimEnd s = takeWhile isSpace (trimEnd s) @ trim s"
    by (simp add: trim_def trimStart_def)
  have "s = takeWhile isSpace (trimEnd s) @ trim s @ rev (takeWhile isSpace (rev s))"
    by (subst 1, subst 2) simp
  then show ?thesis by blast
qed

lemma hasTag_trim: "hasTag (trim s) \<Longrightarrow> hasTag s"
proof -
  assume h: "hasTag (trim s)"
  obtain a b where s: "s = a @ trim s @ b" using trim_decomp by blast
  have "hasTag (a @ trim s @ b)" using h by (simp add: hasTag_append1 hasTag_append2)
  then show ?thesis using s by simp
qed

lemma note_clean:
  assumes "n = trim (stripTags plain)" "n \<noteq> []"
  shows "\<not> hasTag n \<and> \<not> isSpace (hd n) \<and> \<not> isSpace (last n)"
proof -
  have "\<not> hasTag (stripTags plain)" by (simp add: stripTags_def stripTagsFrom_no_tag)
  then have "\<not> hasTag n" using hasTag_trim assms(1) by blast
  then show ?thesis using trim_ends[of "stripTags plain"] assms by simp
qed

lemma parseXMLTopic_fields:
  "topic_title (parseXMLTopic xml) = Some (case firstTitle xml of None \<Rightarrow> UNNAMED_TOPIC | Some g \<Rightarrow> g)"
  "notes_plain_content (parseXMLTopic xml) =
     (case firstBetween (str ''<notes>'') (str ''</notes>'') xml of
        None \<Rightarrow> None
      | Some notes \<Rightarrow>
          (case firstBetween (str ''<plain>'') (str ''</plain>'') notes of
             None \<Rightarrow> None
           | Some plain \<Rightarrow>
               if trim (stripTags plain) = [] then None else Some (trim (stripTags plain))))"
  "topic_note (parseXMLTopic xml) = None"
  "getChildren (parseXMLTopic xml) = map parseXMLTopic (subBlocks xml)"
  unfolding parseXMLTopic.simps[of xml] Let_def
  by (auto simp: getChildren_def subBlocks_def map_concat comp_def split: option.splits)

section \<open>Claims about the Markdown parser\<close>

text \<open>
  Claim C1, as the code has it. Let line \<open>i\<close> of the content be a heading of level \<open>L\<close>
  with title \<open>t\<close>, and let \<open>st\<close> be the state in which the loop reaches it. The level is
  between 1 and 6. If it is the first level-1 heading of the content, the line sets the
  title of the root and changes nothing else of the tree (it is not inserted as a child),
  the path stack is reset to the root alone, and the tree that parseMarkdownToStructure
  returns has this title. Every other heading is inserted by insertNode with the adjusted
  level \<open>d\<close>, which is 1 for a level-1 heading and \<open>L - 1\<close> for the levels 2 to 6, as
  the target of the path stack: the stack is popped down to \<open>k = min (length stack) d\<close>
  entries, never below one, the new node without note and children becomes the last child
  of the entry that is then on top, at depth \<open>k\<close> of the tree, and is pushed. So the
  node lies at depth \<open>d\<close> when the stack holds at least \<open>d\<close> entries, and directly
  below the top of the stack when it holds fewer. In the tree returned at the end, the
  node at that place still has the title \<open>t\<close>.
\<close>

theorem markdownToTree_headings:
  assumes "i < length (splitNL content)"
    and "classifyLine (splitNL content ! i) = Heading L t"
  shows "let st = stateBefore content i;
             st' = processLine (splitNL content ! i) st;
             stack = pathStack st
         in 1 \<le> L \<and> L \<le> 6 \<and>
            (if L = 1 \<and> \<not> list_ex isH1 (take i (splitNL content))
             then struct st' = setTitle t (struct st) \<and>
                  children (struct st') = children (struct st) \<and>
                  pathStack st' = [[]] \<and>
                  title (parseMarkdownToStructure content) = t
             else (let d = (if L = 1 then 1 else L - 1);
                       k = min (length stack) d;
                       parent = stack ! (k - 1);
                       new = parent @ [numChildren parent (struct st)]
                   in st' = insertNode d (Node t None []) st \<and>
                      1 \<le> k \<and> pathStack st' = take k stack @ [new] \<and> length new = k \<and>
                      struct st' = upd_at parent (pushChild (Node t None [])) (struct st) \<and>
                      get_at new (struct st') = Some (Node t None []) \<and>
                      map_option title (get_at new (parseMarkdownToStructure content)) = Some t \<and>
                      (d \<le> length stack \<longrightarrow> length new = d)))"
proof -
  define st where "st = stateBefore content i"
  define st' where "st' = processLine (splitNL content ! i) st"
  have lv: "1 \<le> L \<and> L \<le> 6" using classify_Heading_level[OF assms(2)] .
  have ok: "stackOk st" by (simp add: st_def stackOk_stateBefore)
  have fd: "firstH1Found st = list_ex isH1 (take i (splitNL content))"
    by (simp add: st_def found_stateBefore)
  have hl: "st' = headingLine L t st" using assms(2) by (simp add: st'_def processLine_def)
  show ?thesis
  proof (cases "L = 1 \<and> \<not> list_ex isH1 (take i (splitNL content))")
    case True
    have ne: "pathStack st \<noteq> []" using ok by (simp add: stackOk_def)
    from stackOk_nth[OF ok, of 0] ne have "pathStack st ! 0 = []" by simp
    with ne have tk: "take 1 (pathStack st) = [[]]" by (cases "pathStack st") auto
    have s1: "struct st' = setTitle t (struct st)" and s2: "pathStack st' = [[]]"
      and s3: "firstH1Found st'"
      using True fd tk by (simp_all add: hl headingLine_def)
    have "title (parseMarkdownToStructure content) = title (struct st')"
      using processLines_title_found[OF s3] by (simp add: parse_at[OF assms(1)] st'_def st_def)
    then have s4: "title (parseMarkdownToStructure content) = t" by (simp add: s1 setTitle_def)
    from True lv s1 s2 s4 show ?thesis
      unfolding Let_def st_def[symmetric] st'_def[symmetric] by (simp add: setTitle_def)
  next
    case False
    define d where "d = (if L = 1 then 1 else L - 1)"
    have d1: "1 \<le> d" using lv unfolding d_def by (cases "L = 1") auto
    have ins: "st' = insertNode d (Node t None []) st"
      using False fd d1 by (auto simp: hl headingLine_def Let_def d_def)
    have ins': "processLine (splitNL content ! i) (stateBefore content i) =
        insertNode d (Node t None []) (stateBefore content i)"
      using ins by (simp add: st'_def st_def)
    note X = insertNode_at[OF assms(1) d1 ins', unfolded Let_def]
    have nf: "\<not> (L = 1 \<and> \<not> list_ex isH1 (take i (splitNL content)))" by fact
    show ?thesis
      unfolding Let_def if_not_P[OF nf] d_def[symmetric]
      using lv ins' X by blast
  qed
qed

text \<open>
  The theorem at lines 0 and 2 of the scenario \<open>"# Root\n## Sec\n### Sub\nbody text"\<close>:
  the first level-1 heading, and a level-3 heading that finds two entries on the stack.
\<close>

theorem markdownToTree_headings_witness:
  "((0::nat) < length (splitNL sampleDoc) \<and>
    classifyLine (splitNL sampleDoc ! (0::nat)) = Heading (1::nat) (str ''Root'') \<and>
    (let st = stateBefore sampleDoc (0::nat);
             st' = processLine (splitNL sampleDoc ! (0::nat)) st;
             stack = pathStack st
         in 1 \<le> (1::nat) \<and> (1::nat) \<le> 6 \<and>
            (if (1::nat) = 1 \<and> \<not> list_ex isH1 (take (0::nat) (splitNL sampleDoc))
             then struct st' = setTitle (str ''Root'') (struct st) \<and>
                  children (struct st') = children (struct st) \<and>
                  pathStack st' = [[]] \<and>
                  title (parseMarkdownToStructure sampleDoc) = (str ''Root'')
             else (let d = (if (1::nat) = 1 then 1 else (1::nat) - 1);
                       k = min (length stack) d;
                       parent = stack ! (k - 1);
                       new = parent @ [numChildren parent (struct st)]
                   in st' = insertNode d (Node (str ''Root'') None []) st \<and>
                      1 \<le> k \<and> pathStack st' = take k stack @ [new] \<and> length new = k \<and>
                      struct st' = upd_at parent (pushChild (Node (str ''Root'') None [])) (struct st) \<and>
                      get_at new (struct st') = Some (Node (str ''Root'') None []) \<and>
                      map_option title (get_at new (parseMarkdownToStructure sampleDoc)) = Some (str ''Root'') \<and>
                      (d \<le> length stack \<longrightarrow> length new = d))))) \<and>
   ((2::nat) < length (splitNL sampleDoc) \<and>
    classifyLine (splitNL sampleDoc ! (2::nat)) = Heading (3::nat) (str ''Sub'') \<and>
    (2::nat) \<le> length (pathStack (stateBefore sampleDoc (2::nat))) \<and>
    (let st = stateBefore sampleDoc (2::nat);
             st' = processLine (splitNL sampleDoc ! (2::nat)) st;
             stack = pathStack st
         in 1 \<le> (3::nat) \<and> (3::nat) \<le> 6 \<and>
            (if (3::nat) = 1 \<and> \<not> list_ex isH1 (take (2::nat) (splitNL sampleDoc))
             then struct st' = setTitle (str ''Sub'') (struct st) \<and>
                  children (struct st') = children (struct st) \<and>
                  pathStack st' = [[]] \<and>
                  title (parseMarkdownToStructure sampleDoc) = (str ''Sub'')
             else (let d = (if (3::nat) = 1 then 1 else (3::nat) - 1);
                       k = min (length stack) d;
                       parent = stack ! (k - 1);
                       new = parent @ [numChildren parent (struct st)]
                   in st' = insertNode d (Node (str ''Sub'') None []) st \<and>
                      1 \<le> k \<and> pathStack st' = take k stack @ [new] \<and> length new = k \<and>
                      struct st' = upd_at parent (pushChild (Node (str ''Sub'') None [])) (struct st) \<and>
                      get_at new (struct st') = Some (Node (str ''Sub'') None []) \<and>
                      map_option title (get_at new (parseMarkdownToStructure sampleDoc)) = Some (str ''Sub'') \<and>
                      (d \<le> length stack \<longrightarrow> length new = d)))))"
proof -
  have a1: "(0::nat) < length (splitNL sampleDoc)" by code_simp
  have a2: "classifyLine (splitNL sampleDoc ! (0::nat)) = Heading (1::nat) (str ''Root'')" by code_simp
  have b1: "(2::nat) < length (splitNL sampleDoc)" by code_simp
  have b2: "classifyLine (splitNL sampleDoc ! (2::nat)) = Heading (3::nat) (str ''Sub'')" by code_simp
  have b3: "(2::nat) \<le> length (pathStack (stateBefore sampleDoc (2::nat)))" by code_simp
  show ?thesis
    by (rule conjI[OF conjI[OF a1 conjI[OF a2 markdownToTree_headings[OF a1 a2]]]
                      conjI[OF b1 conjI[OF b2 conjI[OF b3 markdownToTree_headings[OF b1 b2]]]]])
qed

text \<open>
  Claim C1 as the specification states it fails on \<open>"# R\n### Sub"\<close>: the second line is
  a heading of level 3, whose adjusted level is 2, and it is inserted as a child of the
  root, at depth 1.
\<close>

theorem markdownToTree_headings_counterexample:
  "classifyLine (splitNL (str ''# R\<newline>### Sub'') ! 1) = Heading 3 (str ''Sub'') \<and>
   pathStack (stateBefore (str ''# R\<newline>### Sub'') 1) = [[]] \<and>
   pathStack (processLine (splitNL (str ''# R\<newline>### Sub'') ! 1)
                (stateBefore (str ''# R\<newline>### Sub'') 1)) = [[], [0]] \<and>
   parseMarkdownToStructure (str ''# R\<newline>### Sub'') =
     Node (str ''R'') None [Node (str ''Sub'') None []]"
  by code_simp

text \<open>
  Claim C5. Let line \<open>i\<close> of the content be a line on which the heading pattern fails
  and the bullet pattern matches, with \<open>indent\<close> characters of leading white space and
  the text \<open>g\<close>. The loop takes the bullet branch: it computes the level
  \<open>d = indent div 2 + 1\<close> and inserts a node titled \<open>trim g\<close> by insertNode, the
  pop and push discipline of the headings, with \<open>d\<close> as it is: the stack is popped to
  \<open>k = min (length stack) d\<close> entries, the node becomes the last child of the entry then
  on top, at depth \<open>k\<close> (which is \<open>d\<close> when the stack holds at least \<open>d\<close>
  entries), and is pushed. A line takes the bullet branch only when the
  heading pattern has failed on it.
\<close>

theorem markdownToTree_bullets:
  assumes "i < length (splitNL content)"
    and "matchHeading (trim (trimEnd (stripFinalCR (splitNL content ! i)))) = None"
    and "matchBullet (trimEnd (stripFinalCR (splitNL content ! i))) = Some (indent, g)"
  shows "let st = stateBefore content i;
             st' = processLine (splitNL content ! i) st;
             stack = pathStack st;
             d = indent div 2 + 1;
             k = min (length stack) d;
             parent = stack ! (k - 1);
             new = parent @ [numChildren parent (struct st)]
         in classifyLine (splitNL content ! i) = Bullet indent (trim g) \<and>
            st' = insertNode d (Node (trim g) None []) st \<and>
            1 \<le> k \<and> pathStack st' = take k stack @ [new] \<and> length new = k \<and>
            struct st' = upd_at parent (pushChild (Node (trim g) None [])) (struct st) \<and>
            get_at new (struct st') = Some (Node (trim g) None []) \<and>
            map_option title (get_at new (parseMarkdownToStructure content)) = Some (trim g) \<and>
            firstH1Found st' = firstH1Found st \<and>
            (d \<le> length stack \<longrightarrow> length new = d) \<and>
            (classifyLine other = Bullet a b \<longrightarrow>
               matchHeading (trim (trimEnd (stripFinalCR other))) = None)"
proof -
  have cl: "classifyLine (splitNL content ! i) = Bullet indent (trim g)"
    using classify_Bullet[OF assms(2,3)] .
  have d1: "1 \<le> indent div 2 + 1" by simp
  have ins: "processLine (splitNL content ! i) (stateBefore content i) =
        insertNode (indent div 2 + 1) (Node (trim g) None []) (stateBefore content i)"
    by (simp add: processLine_def cl bulletLine_def)
  note X = insertNode_at[OF assms(1) d1 ins, unfolded Let_def]
  show ?thesis
    unfolding Let_def
    using cl ins X classify_Bullet_only[of other a b] by blast
qed

text \<open>The theorem at the second line of \<open>"- a\n  - b"\<close>, a bullet indented by two spaces.\<close>

theorem markdownToTree_bullets_witness:
  "(1::nat) < length (splitNL (str ''- a\<newline>  - b'')) \<and>
   matchHeading (trim (trimEnd (stripFinalCR (splitNL (str ''- a\<newline>  - b'') ! (1::nat))))) = None \<and>
   matchBullet (trimEnd (stripFinalCR (splitNL (str ''- a\<newline>  - b'') ! (1::nat)))) = Some ((2::nat), (str ''b'')) \<and>
   classifyLine (str ''- a'') = Bullet (0::nat) (str ''a'') \<and>
   (2::nat) div 2 + 1 \<le> length (pathStack (stateBefore (str ''- a\<newline>  - b'') (1::nat))) \<and>
   (let st = stateBefore (str ''- a\<newline>  - b'') (1::nat);
             st' = processLine (splitNL (str ''- a\<newline>  - b'') ! (1::nat)) st;
             stack = pathStack st;
             d = (2::nat) div 2 + 1;
             k = min (length stack) d;
             parent = stack ! (k - 1);
             new = parent @ [numChildren parent (struct st)]
         in classifyLine (splitNL (str ''- a\<newline>  - b'') ! (1::nat)) = Bullet (2::nat) (trim (str ''b'')) \<and>
            st' = insertNode d (Node (trim (str ''b'')) None []) st \<and>
            1 \<le> k \<and> pathStack st' = take k stack @ [new] \<and> length new = k \<and>
            struct st' = upd_at parent (pushChild (Node (trim (str ''b'')) None [])) (struct st) \<and>
            get_at new (struct st') = Some (Node (trim (str ''b'')) None []) \<and>
            map_option title (get_at new (parseMarkdownToStructure (str ''- a\<newline>  - b''))) = Some (trim (str ''b'')) \<and>
            firstH1Found st' = firstH1Found st \<and>
            (d \<le> length stack \<longrightarrow> length new = d) \<and>
            (classifyLine (str ''- a'') = Bullet (0::nat) (str ''a'') \<longrightarrow>
               matchHeading (trim (trimEnd (stripFinalCR (str ''- a'')))) = None))"
proof -
  have h1: "(1::nat) < length (splitNL (str ''- a\<newline>  - b''))" by code_simp
  have h2: "matchHeading (trim (trimEnd (stripFinalCR (splitNL (str ''- a\<newline>  - b'') ! (1::nat))))) = None" by code_simp
  have h3: "matchBullet (trimEnd (stripFinalCR (splitNL (str ''- a\<newline>  - b'') ! (1::nat)))) = Some ((2::nat), (str ''b''))" by code_simp
  have h4: "classifyLine (str ''- a'') = Bullet (0::nat) (str ''a'')" by code_simp
  have h5: "(2::nat) div 2 + 1 \<le> length (pathStack (stateBefore (str ''- a\<newline>  - b'') (1::nat)))" by code_simp
  show ?thesis
    by (rule conjI[OF h1 conjI[OF h2 conjI[OF h3 conjI[OF h4 conjI[OF h5 markdownToTree_bullets[OF h1 h2 h3]]]]]])
qed

text \<open>
  Claim C7, as the code has it. Let line \<open>i\<close> of the content be a non-blank line that
  matches neither pattern; \<open>line\<close> is this line without its trailing white space. The
  path stack is left as it is. When it holds more than the root, the node on top of it has
  no children, and the line is appended to the note of that node, after a line feed when
  the note is not empty; nothing else of the state changes. The branch of the code that
  adds the line as a child is never taken: the tree after the line is not the one with a
  new last child titled \<open>line\<close> below the top. When the stack holds the root alone, the
  line changes nothing. So for a content whose lines are all blank or plain,
  parseMarkdownToStructure returns the default root with no note and no children.
\<close>

theorem markdownToTree_plain_text:
  assumes "i < length (splitNL content)"
    and "classifyLine (splitNL content ! i) = Plain line"
  shows "let st = stateBefore content i;
             st' = processLine (splitNL content ! i) st;
             stack = pathStack st;
             top = last stack
         in line = trimEnd (stripFinalCR (splitNL content ! i)) \<and> line \<noteq> [] \<and>
            pathStack st' = stack \<and>
            (if length stack > 1 then
               (case get_at top (struct st) of
                  None \<Rightarrow> False
                | Some cur \<Rightarrow>
                    children cur = [] \<and>
                    st' = st \<lparr> struct := upd_at top (appendNote line) (struct st) \<rparr> \<and>
                    get_at top (struct st') =
                      Some (Node (title cur)
                              (Some (case node_note cur of
                                       None \<Rightarrow> line
                                     | Some old \<Rightarrow> if old = [] then line else old @ NL # line))
                              []) \<and>
                    struct st' \<noteq> upd_at top (pushChild (Node line None [])) (struct st))
             else st' = st) \<and>
            (list_all isPlainOrBlank (splitNL content) \<longrightarrow>
               parseMarkdownToStructure content = Node DEFAULT_ROOT_TITLE None [])"
proof -
  define st where "st = stateBefore content i"
  define st' where "st' = processLine (splitNL content ! i) st"
  define top where "top = last (pathStack st)"
  have ok: "stackOk st" by (simp add: st_def stackOk_stateBefore)
  have lf: "topIsLeaf st" by (simp add: st_def topIsLeaf_stateBefore)
  have pl: "st' = plainText line st" using assms(2) by (simp add: st'_def processLine_def)
  from classify_Plain[OF assms(2)] have l1: "line = trimEnd (stripFinalCR (splitNL content ! i))"
    and l2: "line \<noteq> []" by (auto simp: trim_Nil_iff)
  have ps: "pathStack st' = pathStack st" by (simp add: pl plainText_def Let_def)
  have body: "if length (pathStack st) > 1 then
               (case get_at top (struct st) of
                  None \<Rightarrow> False
                | Some cur \<Rightarrow>
                    children cur = [] \<and>
                    st' = st \<lparr> struct := upd_at top (appendNote line) (struct st) \<rparr> \<and>
                    get_at top (struct st') =
                      Some (Node (title cur)
                              (Some (case node_note cur of
                                       None \<Rightarrow> line
                                     | Some old \<Rightarrow> if old = [] then line else old @ NL # line))
                              []) \<and>
                    struct st' \<noteq> upd_at top (pushChild (Node line None [])) (struct st))
             else st' = st"
  proof (cases "length (pathStack st) > 1")
    case False
    then show ?thesis by (simp add: pl plainText_def)
  next
    case True
    from plainText_leaf[OF ok lf True, of line] obtain cur where
      cur: "get_at top (struct st) = Some cur" and ch: "children cur = []"
      and eq: "st' = st \<lparr> struct := upd_at top (appendNote line) (struct st) \<rparr>"
      and g: "get_at top (struct st') = Some (appendNote line cur)"
      unfolding top_def pl by blast
    have g': "get_at top (struct st') =
                      Some (Node (title cur)
                              (Some (case node_note cur of
                                       None \<Rightarrow> line
                                     | Some old \<Rightarrow> if old = [] then line else old @ NL # line))
                              [])"
      using g ch by (simp add: appendNote_def)
    have "get_at top (upd_at top (pushChild (Node line None [])) (struct st)) =
            Some (pushChild (Node line None []) cur)"
      using get_at_upd_same[OF cur, of "pushChild (Node line None [])"] .
    then have "get_at top (upd_at top (pushChild (Node line None [])) (struct st)) \<noteq>
               get_at top (struct st')"
      unfolding g' by (simp add: pushChild_def)
    then have df: "struct st' \<noteq> upd_at top (pushChild (Node line None [])) (struct st)"
      by auto
    from True cur ch eq g' df show ?thesis by simp
  qed
  have glob: "list_all isPlainOrBlank (splitNL content) \<longrightarrow>
               parseMarkdownToStructure content = Node DEFAULT_ROOT_TITLE None []"
    using no_structure[of "splitNL content" initState]
    by (auto simp: parseMarkdownToStructure_def initState_def)
  show ?thesis
    unfolding Let_def st_def[symmetric] st'_def[symmetric] top_def[symmetric]
    using l1 l2 ps body glob by blast
qed

text \<open>
  The theorem at the only line of \<open>"hello"\<close>, where the stack holds the root alone, and
  at the second line of \<open>"- a\nx  "\<close>, where the node of the bullet is on top.
\<close>

theorem markdownToTree_plain_text_witness:
  "((0::nat) < length (splitNL (str ''hello'')) \<and>
    classifyLine (splitNL (str ''hello'') ! (0::nat)) = Plain (str ''hello'') \<and>
    list_all isPlainOrBlank (splitNL (str ''hello'')) \<and>
    (let st = stateBefore (str ''hello'') (0::nat);
             st' = processLine (splitNL (str ''hello'') ! (0::nat)) st;
             stack = pathStack st;
             top = last stack
         in (str ''hello'') = trimEnd (stripFinalCR (splitNL (str ''hello'') ! (0::nat))) \<and> (str ''hello'') \<noteq> [] \<and>
            pathStack st' = stack \<and>
            (if length stack > 1 then
               (case get_at top (struct st) of
                  None \<Rightarrow> False
                | Some cur \<Rightarrow>
                    children cur = [] \<and>
                    st' = st \<lparr> struct := upd_at top (appendNote (str ''hello'')) (struct st) \<rparr> \<and>
                    get_at top (struct st') =
                      Some (Node (title cur)
                              (Some (case node_note cur of
                                       None \<Rightarrow> (str ''hello'')
                                     | Some old \<Rightarrow> if old = [] then (str ''hello'') else old @ NL # (str ''hello'')))
                              []) \<and>
                    struct st' \<noteq> upd_at top (pushChild (Node (str ''hello'') None [])) (struct st))
             else st' = st) \<and>
            (list_all isPlainOrBlank (splitNL (str ''hello'')) \<longrightarrow>
               parseMarkdownToStructure (str ''hello'') = Node DEFAULT_ROOT_TITLE None []))) \<and>
   ((1::nat) < length (splitNL (str ''- a\<newline>x  '')) \<and>
    classifyLine (splitNL (str ''- a\<newline>x  '') ! (1::nat)) = Plain (str ''x'') \<and>
    length (pathStack (stateBefore (str ''- a\<newline>x  '') (1::nat))) > 1 \<and>
    (let st = stateBefore (str ''- a\<newline>x  '') (1::nat);
             st' = processLine (splitNL (str ''- a\<newline>x  '') ! (1::nat)) st;
             stack = pathStack st;
             top = last stack
         in (str ''x'') = trimEnd (stripFinalCR (splitNL (str ''- a\<newline>x  '') ! (1::nat))) \<and> (str ''x'') \<noteq> [] \<and>
            pathStack st' = stack \<and>
            (if length stack > 1 then
               (case get_at top (struct st) of
                  None \<Rightarrow> False
                | Some cur \<Rightarrow>
                    children cur = [] \<and>
                    st' = st \<lparr> struct := upd_at top (appendNote (str ''x'')) (struct st) \<rparr> \<and>
                    get_at top (struct st') =
                      Some (Node (title cur)
                              (Some (case node_note cur of
                                       None \<Rightarrow> (str ''x'')
                                     | Some old \<Rightarrow> if old = [] then (str ''x'') else old @ NL # (str ''x'')))
                              []) \<and>
                    struct st' \<noteq> upd_at top (pushChild (Node (str ''x'') None [])) (struct st))
             else st' = st) \<and>
            (list_all isPlainOrBlank (splitNL (str ''- a\<newline>x  '')) \<longrightarrow>
               parseMarkdownToStructure (str ''- a\<newline>x  '') = Node DEFAULT_ROOT_TITLE None [])))"
proof -
  have a1: "(0::nat) < length (splitNL (str ''hello''))" by code_simp
  have a2: "classifyLine (splitNL (str ''hello'') ! (0::nat)) = Plain (str ''hello'')" by code_simp
  have a3: "list_all isPlainOrBlank (splitNL (str ''hello''))" by code_simp
  have b1: "(1::nat) < length (splitNL (str ''- a\<newline>x  ''))" by code_simp
  have b2: "classifyLine (splitNL (str ''- a\<newline>x  '') ! (1::nat)) = Plain (str ''x'')" by code_simp
  have b3: "length (pathStack (stateBefore (str ''- a\<newline>x  '') (1::nat))) > 1" by code_simp
  show ?thesis
    by (rule conjI[OF conjI[OF a1 conjI[OF a2 conjI[OF a3 markdownToTree_plain_text[OF a1 a2]]]]
                      conjI[OF b1 conjI[OF b2 conjI[OF b3 markdownToTree_plain_text[OF b1 b2]]]]])
qed

text \<open>
  Claim C7 as the specification states it fails on \<open>"hello"\<close>: the line is plain text,
  the node on top of the stack is the root and has no children, and the line is neither
  appended to the note of the root nor made a child of it.
\<close>

theorem markdownToTree_plain_text_counterexample:
  "classifyLine (str ''hello'') = Plain (str ''hello'') \<and>
   pathStack (stateBefore (str ''hello'') 0) = [[]] \<and>
   get_at [] (struct (stateBefore (str ''hello'') 0)) = Some (Node DEFAULT_ROOT_TITLE None []) \<and>
   parseMarkdownToStructure (str ''hello'') = Node DEFAULT_ROOT_TITLE None []"
  by code_simp

section \<open>Claims about the heading restructurer\<close>

text \<open>
  Claim C3. convertMdToMd rebuilds the document line by line: the result is the lines
  that restructureSpec gives, joined by line feeds, where a line that is a level-2
  heading contributes nothing, a line that is a level-3 heading contributes a synthesized
  line \<open>"## "\<close> followed by the section label and then the line itself, and any other
  line contributes itself unchanged. The section label is the title of the nearest level-2
  heading before the line in the list of headings, or the default label when there is
  none.
\<close>

theorem restructureHeadings_line_by_line:
  "convertMdToMd content = joinNL (restructureSpec (splitNL content))"
  by (simp add: convertMdToMd_def Let_def buildResult_spec restructureSpec_def)

text \<open>
  Claim C4. convertMdToMd is idempotent: for every text, restructuring the restructured
  text gives the restructured text again.
\<close>

theorem restructureHeadings_idempotent:
  "convertMdToMd (convertMdToMd x) = convertMdToMd x"
proof -
  define ys where "ys = relabel UNCLASSIFIED (splitNL x)"
  have c: "convertMdToMd z = joinNL (relabel UNCLASSIFIED (splitNL z))" for z
    by (simp add: convertMdToMd_def Let_def buildResult_spec
        restructureSpec_def[symmetric] restructureSpec_relabel)
  have "joinNL (relabel UNCLASSIFIED (splitNL (joinNL ys))) = joinNL ys"
  proof (cases "ys = []")
    case True
    have "lineHeading [] = None"
      by (simp add: lineHeading_def matchHeading_def trim_def trimStart_def trimEnd_def)
    with True show ?thesis by simp
  next
    case False
    have "\<forall>l\<in>set ys. NL \<notin> set l"
      unfolding ys_def
      by (rule relabel_no_NL[OF goodLabel_UNCLASSIFIED]) (simp add: splitNL_no_NL)
    from splitNL_joinNL[OF False this] show ?thesis
      by (simp add: ys_def relabel_idem[OF goodLabel_UNCLASSIFIED])
  qed
  then show ?thesis by (simp add: c ys_def)
qed

section \<open>Claims about the renderer\<close>

text \<open>
  Claim C6. In header mode no line that toHeaderMd pushes starts with more than six
  \<open>#\<close> characters. The lines pushed for the topics of the tree appear in the output in
  the order of the tree, the line of a topic at level \<open>D\<close> being \<open>headerLine D\<close> of its
  title: \<open>D\<close> characters \<open>#\<close>, a space and the title when \<open>D \<le> 6\<close>, and \<open>D - 7\<close>
  indents of two spaces, \<open>"- "\<close> and the title when \<open>D > 6\<close>. When no title contains a
  line feed, the pushed lines are the lines of the rendered text of a sheet, so no line of
  the text starts with more than six \<open>#\<close> characters.
\<close>

theorem treeToMarkdown_header_clamp:
  "list_all (\<lambda>line. leadingHashes line \<le> 6) (toHeaderMd topic level []) \<and>
   subseq (map (\<lambda>(l, t). headerLine l (titleOrUnnamed t)) (topicsWithLevel topic level))
          (toHeaderMd topic level []) \<and>
   headerLine D ttl =
     (if D \<le> 6 then replicate D HASH @ SP # ttl
      else replicate (2 * (D - 7)) SP @ 45 # SP # ttl) \<and>
   (titlesOneLine topic \<and> format \<noteq> str ''list'' \<longrightarrow>
      list_all (\<lambda>line. leadingHashes line \<le> 6) (splitNL (sheetOutput format topic)))"
proof -
  have a: "list_all (\<lambda>line. leadingHashes line \<le> 6) (toHeaderMd topic l [])" for l
    using toHeaderMd_lines[of "[]" topic l] by (simp add: list_all_iff)
  have d: "list_all (\<lambda>line. leadingHashes line \<le> 6) (splitNL (sheetOutput format topic))"
    if "titlesOneLine topic" "format \<noteq> str ''list''"
    using that a[of 1] by (simp add: sheetOutput_def header_lines_of_text)
  show ?thesis using a toHeaderMd_nodes headerLine_eq d by blast
qed

text \<open>
  The theorem for a chain of eight topics rendered from level 1, whose last topic is at
  level 8, and for the line of a topic at level 8.
\<close>

theorem treeToMarkdown_header_clamp_witness:
  "titlesOneLine (chainTopic 7) \<and> str ''header'' \<noteq> str ''list'' \<and>
   list_all (\<lambda>line. leadingHashes line \<le> 6) (toHeaderMd (chainTopic 7) 1 []) \<and>
   subseq (map (\<lambda>(l, t). headerLine l (titleOrUnnamed t)) (topicsWithLevel (chainTopic 7) 1))
          (toHeaderMd (chainTopic 7) 1 []) \<and>
   headerLine 8 (str ''t'') =
     (if (8::nat) \<le> 6 then replicate 8 HASH @ SP # (str ''t'')
      else replicate (2 * (8 - 7)) SP @ 45 # SP # (str ''t'')) \<and>
   list_all (\<lambda>line. leadingHashes line \<le> 6) (splitNL (sheetOutput (str ''header'') (chainTopic 7)))"
proof -
  have h1: "titlesOneLine (chainTopic 7)" by code_simp
  have h2: "str ''header'' \<noteq> str ''list''" by code_simp
  note T = treeToMarkdown_header_clamp[of "chainTopic 7" 1 8 "str ''t''" "str ''header''"]
  from T h1 h2 show ?thesis by blast
qed

text \<open>
  Claim C9, as the code has it. The outputs of the sheets that have a root topic are
  joined in their order by one line feed, in both modes. In header mode the output of a
  sheet is the join of its lines but the last, which is empty, followed by a line feed:
  it ends with an empty line, so that there is a blank line between it and the output of
  the next sheet. In list mode nothing is added to the joining line feed.
\<close>

theorem multiple_sheets_joined:
  "renderSheets format sheets = joinNL (map (sheetOutput format) (List.map_filter sheetTopic sheets)) \<and>
   joinNL (o1 # o2 # os) = o1 @ NL # joinNL (o2 # os) \<and>
   (format \<noteq> str ''list'' \<longrightarrow>
      sheetOutput format topic = joinNL (butlast (toHeaderMd topic 1 [])) @ [NL])"
  using header_output_ends[of format topic]
  by (simp add: renderSheets_def sheetOutputs_eq)

text \<open>
  The theorem in header mode, for two sheets and for the output of a sheet.
\<close>

theorem multiple_sheets_joined_witness:
  "str ''header'' \<noteq> str ''list'' \<and>
   renderSheets (str ''header'') [sheetA, sheetB] =
      joinNL (map (sheetOutput (str ''header'')) (List.map_filter sheetTopic [sheetA, sheetB])) \<and>
   joinNL (str ''# A'' # str ''# B'' # []) = str ''# A'' @ NL # joinNL (str ''# B'' # []) \<and>
   sheetOutput (str ''header'') (chainTopic 1) = joinNL (butlast (toHeaderMd (chainTopic 1) 1 [])) @ [NL]"
proof -
  have h: "str ''header'' \<noteq> str ''list''" by code_simp
  note T = multiple_sheets_joined[of "str ''header''" "[sheetA, sheetB]" "str ''# A''" "str ''# B''" "[]" "chainTopic 1"]
  from T h show ?thesis by blast
qed

text \<open>
  Claim C9 as the specification states it fails in list mode: the lines of the text for
  the sheets \<open>A\<close> (with a child \<open>c\<close>) and \<open>B\<close> have no empty line between the last
  line of the first sheet and the first line of the second.
\<close>

theorem multiple_sheets_joined_counterexample:
  "splitNL (renderSheets (str ''list'') [sheetA, sheetB]) =
     [str ''# A'', [], str ''- c'', str ''# B'', []]"
  by code_simp

section \<open>Claims about the writer and the reader\<close>

text \<open>
  Claim C2, as the code has it. Let \<open>JSON.parse\<close> return the content that was
  stringified. Reading the package that buildXMindZipFromStructure writes gives one sheet,
  whose root topic carries the tree without the note of its root: the title of the root
  (the fallback title when it is empty), and below it every node with its title (the
  placeholder title when it is empty), its note and its children in their order. The note
  of the root is not written.
\<close>

theorem writer_reader_roundtrip:
  assumes "JSON_parse (JSON_stringify (DataArray (fst (buildContent uid tree)))) =
           Some (DataArray (fst (buildContent uid tree)))"
  shows "case readSheets JSON_parse (buildXMindZipFromStructure uid JSON_stringify tree) of
           Inr [sh] \<Rightarrow>
             (case sheetTopic sh of
                Some tp \<Rightarrow>
                  titleOrUnnamed tp = rootTitle tree \<and>
                  carries tp (Node (rootTitle tree) None (children tree))
              | None \<Rightarrow> False)
         | _ \<Rightarrow> False"
proof -
  define root where "root = fst (buildTopic uid (Node (rootTitle tree) None (children tree)) 0)"
  define k where "k = snd (buildTopic uid (Node (rootTitle tree) None (children tree)) 0)"
  have bt: "buildTopic uid (Node (rootTitle tree) None (children tree)) 0 = (root, k)"
    by (simp add: root_def k_def)
  have bc: "buildContent uid tree =
      ([Sheet (Some (uid k)) (Some (str ''sheet'')) (Some (rootTitle tree)) (Some root) None], Suc k)"
    using bt by (simp add: buildContent_def)
  have car: "carries root (Node (rootTitle tree) None (children tree))"
    unfolding root_def by (rule buildTopic_carries(1))
  then have ttl: "titleOrUnnamed root = rootTitle tree" using rootTitle_ne[of tree] by simp
  have f: "fileOr (buildXMindZipFromStructure uid JSON_stringify tree) (str ''content.json'') (str ''Content.json'')
        = Some (JSON_stringify (DataArray (fst (buildContent uid tree))))"
    by (simp add: fileOr_def buildXMindZipFromStructure_def bc str_def)
  have "readSheets JSON_parse (buildXMindZipFromStructure uid JSON_stringify tree) =
        Inr [Sheet (Some (uid k)) (Some (str ''sheet'')) (Some (rootTitle tree)) (Some root) None]"
    unfolding readSheets_def f using assms by (simp add: bc sheetsOf_def)
  then show ?thesis using car ttl by (simp add: sheetTopic_def)
qed

text \<open>
  The theorem for a tree of four nodes.
\<close>

theorem writer_reader_roundtrip_witness:
  "sampleParse sampleTree (sampleStringify (DataArray (fst (buildContent sampleUid sampleTree)))) =
           Some (DataArray (fst (buildContent sampleUid sampleTree))) \<and>
   (case readSheets (sampleParse sampleTree) (buildXMindZipFromStructure sampleUid sampleStringify sampleTree) of
           Inr [sh] \<Rightarrow>
             (case sheetTopic sh of
                Some tp \<Rightarrow>
                  titleOrUnnamed tp = rootTitle sampleTree \<and>
                  carries tp (Node (rootTitle sampleTree) None (children sampleTree))
              | None \<Rightarrow> False)
         | _ \<Rightarrow> False)"
proof -
  have h: "sampleParse sampleTree (sampleStringify (DataArray (fst (buildContent sampleUid sampleTree)))) =
           Some (DataArray (fst (buildContent sampleUid sampleTree)))" by code_simp
  show ?thesis
    by (rule conjI[OF h
          writer_reader_roundtrip[where JSON_parse = "sampleParse sampleTree"
            and JSON_stringify = sampleStringify and uid = sampleUid and tree = sampleTree,
            OF h]])
qed

text \<open>
  Claim C2 as the specification states it fails for a root with the note \<open>"n"\<close>: the
  topic read back has the title of the root and no note.
\<close>

theorem writer_reader_roundtrip_counterexample:
  "node_note notedRoot = Some (str ''n'') \<and>
   sampleParse notedRoot (sampleStringify (DataArray (fst (buildContent sampleUid notedRoot)))) =
           Some (DataArray (fst (buildContent sampleUid notedRoot))) \<and>
   (case readSheets (sampleParse notedRoot) (buildXMindZipFromStructure sampleUid sampleStringify notedRoot) of
           Inr [sh] \<Rightarrow>
             (case sheetTopic sh of
                Some tp \<Rightarrow> titleOrUnnamed tp = str ''R'' \<and> getNote tp = [] \<and> \<not> carries tp notedRoot
              | None \<Rightarrow> False)
         | _ \<Rightarrow> False)"
  by code_simp

text \<open>
  Claim C8, as the code has it. The reader takes the entry named \<open>content.json\<close> or,
  when there is none, \<open>Content.json\<close>; when there is such an entry, it reports the
  content.json error if the text does not parse and goes on with the parsed sheets if it
  does, whatever else the archive holds. When there is no such entry it takes
  \<open>content.xml\<close> or else \<open>Content.xml\<close>: it reports the unsupported format when there
  is none, the content.xml error when parseXMindXML gives no sheet, and else goes on with
  the sheets of the XML, of which there is at least one and each has a root topic.
\<close>

theorem packageToTree_errors:
  "(fileOr z (str ''content.json'') (str ''Content.json'') = Some jsonStr \<and> JSON_parse jsonStr = None \<longrightarrow>
      readSheets JSON_parse z = Inl ContentJsonParseError \<and>
      xmindZipToMarkdown JSON_parse z format = Inl ContentJsonParseError) \<and>
   (fileOr z (str ''content.json'') (str ''Content.json'') = Some jsonStr \<and> JSON_parse jsonStr = Some data \<longrightarrow>
      readSheets JSON_parse z = Inr (sheetsOf data) \<and>
      xmindZipToMarkdown JSON_parse z format = Inr (renderSheets format (sheetsOf data))) \<and>
   (fileOr z (str ''content.json'') (str ''Content.json'') = None \<and>
    fileOr z (str ''content.xml'') (str ''Content.xml'') = None \<longrightarrow>
      readSheets JSON_parse z = Inl UnsupportedFormat \<and>
      xmindZipToMarkdown JSON_parse z format = Inl UnsupportedFormat) \<and>
   (fileOr z (str ''content.json'') (str ''Content.json'') = None \<and>
    fileOr z (str ''content.xml'') (str ''Content.xml'') = Some xmlStr \<and> parseXMindXML xmlStr = None \<longrightarrow>
      readSheets JSON_parse z = Inl ContentXmlParseError \<and>
      xmindZipToMarkdown JSON_parse z format = Inl ContentXmlParseError) \<and>
   (fileOr z (str ''content.json'') (str ''Content.json'') = None \<and>
    fileOr z (str ''content.xml'') (str ''Content.xml'') = Some xmlStr \<and> parseXMindXML xmlStr = Some sheets \<longrightarrow>
      readSheets JSON_parse z = Inr sheets \<and>
      xmindZipToMarkdown JSON_parse z format = Inr (renderSheets format sheets) \<and>
      sheets \<noteq> [] \<and> list_all (\<lambda>sh. rootTopic sh \<noteq> None) sheets) \<and>
   fileOr z a b = (case z a of Some f \<Rightarrow> Some f | None \<Rightarrow> z b)"
proof -
  have x: "sheets \<noteq> [] \<and> list_all (\<lambda>sh. rootTopic sh \<noteq> None) sheets"
    if "parseXMindXML xmlStr = Some sheets"
    using that
    by (auto simp: parseXMindXML_def Let_def list_all_iff split: if_splits option.splits)
  show ?thesis
    using x by (auto simp: readSheets_def xmindZipToMarkdown_def fileOr_def)
qed

text \<open>
  The theorem on five archives, one for each case.
\<close>

theorem packageToTree_errors_witness:
  "((fileOr ([str ''content.json'' \<mapsto> str ''{'']) (str ''content.json'') (str ''Content.json'') = Some (str ''{'') \<and> parseEmptyArray (str ''{'') = None) \<and>
    (readSheets parseEmptyArray ([str ''content.json'' \<mapsto> str ''{'']) = Inl ContentJsonParseError \<and>
      xmindZipToMarkdown parseEmptyArray ([str ''content.json'' \<mapsto> str ''{'']) (str ''header'') = Inl ContentJsonParseError)) \<and>
   ((fileOr ([str ''Content.json'' \<mapsto> str ''[]'', str ''content.xml'' \<mapsto> str ''x'']) (str ''content.json'') (str ''Content.json'') = Some (str ''[]'') \<and> parseEmptyArray (str ''[]'') = Some (DataArray [])) \<and>
    (readSheets parseEmptyArray ([str ''Content.json'' \<mapsto> str ''[]'', str ''content.xml'' \<mapsto> str ''x'']) = Inr (sheetsOf (DataArray [])) \<and>
      xmindZipToMarkdown parseEmptyArray ([str ''Content.json'' \<mapsto> str ''[]'', str ''content.xml'' \<mapsto> str ''x'']) (str ''header'') = Inr (renderSheets (str ''header'') (sheetsOf (DataArray []))))) \<and>
   ((fileOr Map.empty (str ''content.json'') (str ''Content.json'') = None \<and>
    fileOr Map.empty (str ''content.xml'') (str ''Content.xml'') = None) \<and>
    (readSheets parseEmptyArray Map.empty = Inl UnsupportedFormat \<and>
      xmindZipToMarkdown parseEmptyArray Map.empty (str ''header'') = Inl UnsupportedFormat)) \<and>
   ((fileOr ([str ''content.xml'' \<mapsto> str ''<a/>'']) (str ''content.json'') (str ''Content.json'') = None \<and>
    fileOr ([str ''content.xml'' \<mapsto> str ''<a/>'']) (str ''content.xml'') (str ''Content.xml'') = Some (str ''<a/>'') \<and> parseXMindXML (str ''<a/>'') = None) \<and>
    (readSheets parseEmptyArray ([str ''content.xml'' \<mapsto> str ''<a/>'']) = Inl ContentXmlParseError \<and>
      xmindZipToMarkdown parseEmptyArray ([str ''content.xml'' \<mapsto> str ''<a/>'']) (str ''header'') = Inl ContentXmlParseError)) \<and>
   ((fileOr ([str ''Content.xml'' \<mapsto> sampleXml]) (str ''content.json'') (str ''Content.json'') = None \<and>
    fileOr ([str ''Content.xml'' \<mapsto> sampleXml]) (str ''content.xml'') (str ''Content.xml'') = Some sampleXml \<and> parseXMindXML sampleXml = Some sampleXmlSheets) \<and>
    (readSheets parseEmptyArray ([str ''Content.xml'' \<mapsto> sampleXml]) = Inr sampleXmlSheets \<and>
      xmindZipToMarkdown parseEmptyArray ([str ''Content.xml'' \<mapsto> sampleXml]) (str ''header'') = Inr (renderSheets (str ''header'') sampleXmlSheets) \<and>
      sampleXmlSheets \<noteq> [] \<and> list_all (\<lambda>sh. rootTopic sh \<noteq> None) sampleXmlSheets))"
proof -
  have p1: "fileOr ([str ''content.json'' \<mapsto> str ''{'']) (str ''content.json'') (str ''Content.json'') = Some (str ''{'') \<and> parseEmptyArray (str ''{'') = None" by code_simp
  note q1 = packageToTree_errors[where z = "[str ''content.json'' \<mapsto> str ''{'']" and JSON_parse = parseEmptyArray and format = "str ''header''" and jsonStr = "str ''{''", THEN conjunct1, THEN mp, OF p1]
  have p2: "fileOr ([str ''Content.json'' \<mapsto> str ''[]'', str ''content.xml'' \<mapsto> str ''x'']) (str ''content.json'') (str ''Content.json'') = Some (str ''[]'') \<and> parseEmptyArray (str ''[]'') = Some (DataArray [])" by code_simp
  note q2 = packageToTree_errors[where z = "[str ''Content.json'' \<mapsto> str ''[]'', str ''content.xml'' \<mapsto> str ''x'']" and JSON_parse = parseEmptyArray and format = "str ''header''" and jsonStr = "str ''[]''" and data = "DataArray []", THEN conjunct2, THEN conjunct1, THEN mp, OF p2]
  have p3: "fileOr Map.empty (str ''content.json'') (str ''Content.json'') = None \<and>
    fileOr Map.empty (str ''content.xml'') (str ''Content.xml'') = None" by code_simp
  note q3 = packageToTree_errors[where z = "Map.empty" and JSON_parse = parseEmptyArray and format = "str ''header''", THEN conjunct2, THEN conjunct2, THEN conjunct1, THEN mp, OF p3]
  have p4: "fileOr ([str ''content.xml'' \<mapsto> str ''<a/>'']) (str ''content.json'') (str ''Content.json'') = None \<and>
    fileOr ([str ''content.xml'' \<mapsto> str ''<a/>'']) (str ''content.xml'') (str ''Content.xml'') = Some (str ''<a/>'') \<and> parseXMindXML (str ''<a/>'') = None" by code_simp
  note q4 = packageToTree_errors[where z = "[str ''content.xml'' \<mapsto> str ''<a/>'']" and JSON_parse = parseEmptyArray and format = "str ''header''" and xmlStr = "str ''<a/>''", THEN conjunct2, THEN conjunct2, THEN conjunct2, THEN conjunct1, THEN mp, OF p4]
  have p5: "fileOr ([str ''Content.xml'' \<mapsto> sampleXml]) (str ''content.json'') (str ''Content.json'') = None \<and>
    fileOr ([str ''Content.xml'' \<mapsto> sampleXml]) (str ''content.xml'') (str ''Content.xml'') = Some sampleXml \<and> parseXMindXML sampleXml = Some sampleXmlSheets" by code_simp
  note q5 = packageToTree_errors[where z = "[str ''Content.xml'' \<mapsto> sampleXml]" and JSON_parse = parseEmptyArray and format = "str ''header''" and xmlStr = sampleXml and sheets = sampleXmlSheets, THEN conjunct2, THEN conjunct2, THEN conjunct2, THEN conjunct2, THEN conjunct1, THEN mp, OF p5]
  show ?thesis
    by (intro conjI p1 p2 p3 p4 p5 q1 q2 q3 q4 q5)
qed

text \<open>
  Claim C8 as the specification states it fails twice: an entry named \<open>CONTENT.JSON\<close> is
  not found, and the unsupported format is reported; and a content.json that is the empty
  array gives the empty text and no error.
\<close>

theorem packageToTree_errors_counterexample:
  "xmindZipToMarkdown parseEmptyArray [str ''CONTENT.JSON'' \<mapsto> str ''[]''] (str ''header'') = Inl UnsupportedFormat \<and>
   xmindZipToMarkdown parseEmptyArray [str ''content.json'' \<mapsto> str ''[]''] (str ''header'') = Inr []"
  by code_simp

text \<open>
  Claim C10. The topic that parseXMLTopic makes of a block has the title of the first
  \<open><title>\<close> match, and the placeholder title when there is no match; a block that does not
  contain \<open><title>\<close> has no match. Its \<open>notes.plain.content\<close> is set from the first
  \<open><plain>\<close> match inside the first \<open><notes>\<close> match, with the tags stripped and the
  white space at both ends removed, unless nothing is left; so a note that is set contains
  no tag, is not empty and neither starts nor ends with white space. The children of the
  topic are the topics that parseXMLTopic makes of the blocks inside, so the same holds of
  every topic of the tree.
\<close>

theorem parseXMLTopic_title_and_note:
  "topic_title (parseXMLTopic xml) = Some (case firstTitle xml of None \<Rightarrow> UNNAMED_TOPIC | Some g \<Rightarrow> g) \<and>
   (findCI (str ''<title>'') xml = None \<longrightarrow> topic_title (parseXMLTopic xml) = Some UNNAMED_TOPIC) \<and>
   notes_plain_content (parseXMLTopic xml) =
     (case firstBetween (str ''<notes>'') (str ''</notes>'') xml of
        None \<Rightarrow> None
      | Some notes \<Rightarrow>
          (case firstBetween (str ''<plain>'') (str ''</plain>'') notes of
             None \<Rightarrow> None
           | Some plain \<Rightarrow>
               if trim (stripTags plain) = [] then None else Some (trim (stripTags plain)))) \<and>
   (notes_plain_content (parseXMLTopic xml) = Some n \<longrightarrow>
      \<not> hasTag n \<and> n \<noteq> [] \<and> \<not> isSpace (hd n) \<and> \<not> isSpace (last n)) \<and>
   topic_note (parseXMLTopic xml) = None \<and>
   getChildren (parseXMLTopic xml) = map parseXMLTopic (subBlocks xml)"
proof -
  have t: "topic_title (parseXMLTopic xml) = Some UNNAMED_TOPIC" if "findCI (str ''<title>'') xml = None"
  proof -
    have "firstTitle xml = None" using firstTitle_find[of xml] that by (cases "firstTitle xml") auto
    then show ?thesis by (simp add: parseXMLTopic_fields(1))
  qed
  have c: "\<not> hasTag n \<and> n \<noteq> [] \<and> \<not> isSpace (hd n) \<and> \<not> isSpace (last n)"
    if "notes_plain_content (parseXMLTopic xml) = Some n"
  proof -
    from that obtain plain where "n = trim (stripTags plain)" "n \<noteq> []"
      unfolding parseXMLTopic_fields(2) by (auto split: option.splits if_splits)
    then show ?thesis using note_clean by blast
  qed
  show ?thesis using t c parseXMLTopic_fields[of xml] by blast
qed

text \<open>
  The theorem for a block without title whose note is \<open>" x <b>y</b> "\<close>.
\<close>

theorem parseXMLTopic_title_and_note_witness:
  "findCI (str ''<title>'') untitledBlock = None \<and>
   notes_plain_content (parseXMLTopic untitledBlock) = Some (str ''x y'') \<and>
   topic_title (parseXMLTopic untitledBlock) = Some UNNAMED_TOPIC \<and>
   \<not> hasTag (str ''x y'') \<and> str ''x y'' \<noteq> [] \<and>
   \<not> isSpace (hd (str ''x y'')) \<and> \<not> isSpace (last (str ''x y'')) \<and>
   topic_note (parseXMLTopic untitledBlock) = None \<and>
   getChildren (parseXMLTopic untitledBlock) = map parseXMLTopic (subBlocks untitledBlock)"
proof -
  have h1: "findCI (str ''<title>'') untitledBlock = None" by code_simp
  have h2: "notes_plain_content (parseXMLTopic untitledBlock) = Some (str ''x y'')" by code_simp
  note T = parseXMLTopic_title_and_note[of untitledBlock "str ''x y''"]
  from T h1 h2 show ?thesis by blast
qed

end
